theory Spec2Isabelle
  imports Main "HOL-Library.AList"
begin

section \<open>Python values and helpers\<close>

text \<open>
  The package history processor of \<^verbatim>\<open>rpmautospec/pkg_history.py\<close>, embedded
  function by function.  Exceptions are values of \<open>py_error\<close>; a function that can
  raise returns \<open>py_error + 'a\<close>.  Python dictionaries are association lists in
  insertion order: \<open>map_of\<close> reads a key, \<open>AList.update\<close> stores one (in place when
  the key exists, at the end otherwise).
\<close>

datatype py_error = KeyError string | IndexError | TypeError | ValueError

type_synonym oid = nat

text \<open>A blob is identified with its content, a tree with its top-level entries.\<close>

type_synonym blob = string
type_synonym tree = "(string \<times> blob) list"

datatype commit = Commit
  (commit_id: oid)
  (parents: "commit list")
  (tree: tree)
  (author_name: string)
  (author_email: string)
  (commit_time: int)
  (message: string)

text \<open>
  pygit2 compares and hashes commits by their id, and a git id is the hash of the commit's
  content (its parents included); the model therefore takes a commit to be its content and
  uses HOL equality for \<^verbatim>\<open>==\<close>, \<^verbatim>\<open>in\<close> and dictionary keys.
\<close>

datatype changelog_entry = Entry
  (entry_commit_id: oid)
  (entry_data: string)
  (entry_error: "string option")

datatype pyvalue =
    VNone
  | VStr string
  | VInt int
  | VOid oid
  | VChangelog "changelog_entry list"

type_synonym commit_result = "(string \<times> pyvalue) list"

definition newline :: char where
  "newline = CHR 0x0A"

text \<open>
  A character of a Python string is a code point; the strings of the model hold the code
  points below 256.  \<^verbatim>\<open>str.strip\<close> and \<^verbatim>\<open>str.lstrip\<close> remove the characters
  that \<^verbatim>\<open>str.isspace\<close> accepts.  Below 256 these are the ASCII white space, the
  separators 0x1C to 0x1F, the next-line character 0x85 and the no-break space 0xA0.
\<close>

definition py_isspace :: "char \<Rightarrow> bool" where
  "py_isspace c \<longleftrightarrow>
     c \<in> set [CHR 0x09, CHR 0x0A, CHR 0x0B, CHR 0x0C, CHR 0x0D,
              CHR 0x1C, CHR 0x1D, CHR 0x1E, CHR 0x1F, CHR 0x20,
              CHR 0x85, CHR 0xA0]"

definition lstrip :: "string \<Rightarrow> string" where
  "lstrip s = dropWhile py_isspace s"

definition rstrip :: "string \<Rightarrow> string" where
  "rstrip s = rev (dropWhile py_isspace (rev s))"

definition strip :: "string \<Rightarrow> string" where
  "strip s = lstrip (rstrip s)"

fun split_on :: "char \<Rightarrow> string \<Rightarrow> string list" where
  "split_on c [] = [[]]"
| "split_on c (x # xs) =
     (if x = c then [] # split_on c xs
      else (case split_on c xs of
              [] \<Rightarrow> [[x]]
            | w # ws \<Rightarrow> (x # w) # ws))"

definition is_digit :: "char \<Rightarrow> bool" where
  "is_digit c \<longleftrightarrow> c \<in> set ''0123456789''"

definition digit_val :: "char \<Rightarrow> int" where
  "digit_val c = int (of_char c) - 48"

definition int_of_digits :: "string \<Rightarrow> int" where
  "int_of_digits s = fold (\<lambda>c acc. acc * 10 + digit_val c) s 0"

fun str_nat :: "nat \<Rightarrow> string" where
  "str_nat n =
     (if n < 10 then [''0123456789'' ! n]
      else str_nat (n div 10) @ [''0123456789'' ! (n mod 10)])"

declare str_nat.simps [simp del]

definition str_int :: "int \<Rightarrow> string" where
  "str_int i = (if i < 0 then ''-'' @ str_nat (nat (- i)) else str_nat (nat i))"

text \<open>\<^verbatim>\<open>max(iterable, default=d)\<close> on integers.\<close>

definition py_max :: "int list \<Rightarrow> int \<Rightarrow> int" where
  "py_max xs d = (case xs of [] \<Rightarrow> d | y # ys \<Rightarrow> fold max ys y)"

text \<open>\<^verbatim>\<open>str(v)\<close> as an f-string renders it, for the values a result field can hold.\<close>

fun py_str :: "pyvalue \<Rightarrow> string" where
  "py_str VNone = ''None''"
| "py_str (VStr s) = s"
| "py_str (VInt i) = str_int i"
| "py_str (VOid i) = str_nat i"
| "py_str (VChangelog es) = ''(...)''"

text \<open>\<^verbatim>\<open>d[k]\<close>: raises KeyError when the key is missing.\<close>

definition getitem :: "(string \<times> 'v) list \<Rightarrow> string \<Rightarrow> py_error + 'v" where
  "getitem d k = (case map_of d k of None \<Rightarrow> Inl (KeyError k) | Some v \<Rightarrow> Inr v)"

section \<open>The processor and its collaborators\<close>

text \<open>
  What \<^verbatim>\<open>subprocess.check_output(rpm_cmd, ...).decode("UTF-8")\<close> does inside the
  block that catches every Exception: it raises (non-zero exit status, missing program,
  undecodable output), or it returns the decoded output.
\<close>

datatype proc_result = Raised | Output string

text \<open>One delta of a diff: the paths of its old and new file, when the side is set.\<close>

record delta =
  old_file :: "string option"
  new_file :: "string option"

text \<open>
  The processor object: the package name and the answers of the external collaborators.
  \<open>rpm\<close> is the outcome of the rpm query on a spec file of the given content,
  \<open>diff_to_tree old new\<close> the deltas that the git library reports between two trees,
  \<open>strftime\<close> the rendering as \<^verbatim>\<open>"%a %b %d %Y"\<close>, in UTC, of a time for which
  a datetime object exists (see \<open>changelog_date\<close> below), and
  \<open>wrap_fill\<close> the \<^verbatim>\<open>TextWrapper(width=75, subsequent_indent="  ").fill\<close> of the
  standard library.
\<close>

record processor =
  name :: string
  rpm :: "blob \<Rightarrow> proc_result"
  diff_to_tree :: "tree \<Rightarrow> tree \<Rightarrow> delta list"
  strftime :: "int \<Rightarrow> string"
  wrap_fill :: "string \<Rightarrow> string"

definition specfile_name :: "processor \<Rightarrow> string" where
  "specfile_name P = name P @ ''.spec''"

definition changelog_ignore_patterns :: "string list" where
  "changelog_ignore_patterns = [''.gitignore'', ''gating.yaml'', ''sources'', ''tests/*'']"

section \<open>The metadata query\<close>

record verflags =
  epoch_version :: string
  extraver :: "string option"
  snapinfo :: "string option"
  prerelease :: "bool option"
  base :: "int option"

text \<open>
  \<^verbatim>\<open>autorelease_flags_re.match(info)\<close>: the four groups of
  \<^verbatim>\<open>^E([^_]*)_S([^_]*)_P([01])_B(\d*)$\<close>.  Each \<^verbatim>\<open>[^_]*\<close> is followed by an
  underscore in the pattern, so it can only match the whole run up to the next underscore.
\<close>

definition autorelease_flags_match :: "string \<Rightarrow> (string \<times> string \<times> string \<times> string) option" where
  "autorelease_flags_match info =
     (case info of
        [] \<Rightarrow> None
      | e # r0 \<Rightarrow>
          if e \<noteq> CHR ''E'' then None
          else
            let ev = takeWhile (\<lambda>c. c \<noteq> CHR ''_'') r0;
                r1 = dropWhile (\<lambda>c. c \<noteq> CHR ''_'') r0
            in if take 2 r1 \<noteq> ''_S'' then None
               else
                 let r2 = drop 2 r1;
                     si = takeWhile (\<lambda>c. c \<noteq> CHR ''_'') r2;
                     r3 = dropWhile (\<lambda>c. c \<noteq> CHR ''_'') r2
                 in if take 2 r3 \<noteq> ''_P'' then None
                    else
                      (case drop 2 r3 of
                         [] \<Rightarrow> None
                       | p # r5 \<Rightarrow>
                           if p \<noteq> CHR ''0'' \<and> p \<noteq> CHR ''1'' then None
                           else if take 2 r5 \<noteq> ''_B'' then None
                           else if list_all is_digit (drop 2 r5)
                                then Some (ev, si, [p], drop 2 r5)
                                else None))"

definition or_none :: "string \<Rightarrow> string option" where
  "or_none s = (if s = [] then None else Some s)"

text \<open>
  \<^verbatim>\<open>_get_rpmverflags(path, name)\<close>.  \<open>specfile_exists\<close> says whether
  \<^verbatim>\<open>path/name.spec\<close> exists, \<open>check_output\<close> is the outcome of the rpm call there.
  Reading \<^verbatim>\<open>split_output[1]\<close> happens after that block, where nothing is caught.
\<close>

definition get_rpmverflags :: "bool \<Rightarrow> proc_result \<Rightarrow> py_error + verflags option" where
  "get_rpmverflags specfile_exists check_output =
     (if \<not> specfile_exists then Inr None
      else
        (case check_output of
           Raised \<Rightarrow> Inr None
         | Output raw \<Rightarrow>
             (case split_on newline (strip raw) of
                ev # info # _ \<Rightarrow>
                  (case autorelease_flags_match info of
                     Some (e, s, p, b) \<Rightarrow>
                       Inr (Some \<lparr>epoch_version = ev,
                                  extraver = or_none e,
                                  snapinfo = or_none s,
                                  prerelease = Some (p = ''1''),
                                  base = Some (if b \<noteq> [] then int_of_digits b else 1)\<rparr>)
                   | None \<Rightarrow>
                       Inr (Some \<lparr>epoch_version = ev,
                                  extraver = None,
                                  snapinfo = None,
                                  prerelease = None,
                                  base = None\<rparr>))
              | _ \<Rightarrow> Inl IndexError)))"

text \<open>
  \<^verbatim>\<open>_get_rpmverflags_for_commit\<close>: without the spec file in the commit's tree the
  answer is None; otherwise the blob is written to a fresh directory (where it then
  exists) and queried.  The \<^verbatim>\<open>lru_cache\<close> only saves repeated queries.
\<close>

definition get_rpmverflags_for_commit :: "processor \<Rightarrow> commit \<Rightarrow> py_error + verflags option" where
  "get_rpmverflags_for_commit P c =
     (case map_of (tree c) (specfile_name P) of
        None \<Rightarrow> Inr None
      | Some specblob \<Rightarrow> get_rpmverflags True (rpm P specblob))"

section \<open>The release number visitor\<close>

text \<open>
  A visitor is a generator that is resumed twice.  Its first half (up to the first
  \<^verbatim>\<open>yield\<close>) becomes \<open>phase1\<close>, its second half \<open>phase2\<close>; what the generator keeps
  in local variables between the two is recomputed from the same arguments.
\<close>

record visitor =
  phase1 :: "commit \<Rightarrow> bool \<Rightarrow> py_error + bool"
  phase2 :: "commit \<Rightarrow> bool \<Rightarrow> commit_result \<Rightarrow> commit_result list \<Rightarrow> py_error + commit_result"

text \<open>The local variables of \<^verbatim>\<open>release_number_visitor\<close> that phase 2 reads.\<close>

record rn_locals =
  rn_epoch_version :: "string option"
  rn_prerelease :: "bool option"
  rn_base :: int
  rn_tag_string :: string

definition truthy_str :: "string option \<Rightarrow> bool" where
  "truthy_str t = (case t of None \<Rightarrow> False | Some s \<Rightarrow> s \<noteq> [])"

definition the_str :: "string option \<Rightarrow> string" where
  "the_str t = (case t of None \<Rightarrow> [] | Some s \<Rightarrow> s)"

definition tag_string_of :: "string option list \<Rightarrow> string" where
  "tag_string_of ts = concat (map (\<lambda>t. ''.'' @ the_str t) (filter truthy_str ts))"

definition release_number_locals :: "verflags option \<Rightarrow> rn_locals" where
  "release_number_locals vf =
     (case vf of
        Some v \<Rightarrow>
          \<lparr>rn_epoch_version = Some (epoch_version v),
           rn_prerelease = prerelease v,
           rn_base = (case base v of None \<Rightarrow> 1 | Some b \<Rightarrow> b),
           rn_tag_string = tag_string_of [extraver v, snapinfo v]\<rparr>
      | None \<Rightarrow>
          \<lparr>rn_epoch_version = None,
           rn_prerelease = None,
           rn_base = 1,
           rn_tag_string = []\<rparr>)"

text \<open>The loop over \<^verbatim>\<open>commit.parents\<close> that fills \<^verbatim>\<open>epoch_versions_to_check\<close>.\<close>

fun epoch_versions_to_check :: "processor \<Rightarrow> commit list \<Rightarrow> py_error + string list" where
  "epoch_versions_to_check P [] = Inr []"
| "epoch_versions_to_check P (p # ps) =
     (case get_rpmverflags_for_commit P p of
        Inl e \<Rightarrow> Inl e
      | Inr vf \<Rightarrow>
          (case epoch_versions_to_check P ps of
             Inl e \<Rightarrow> Inl e
           | Inr evs \<Rightarrow>
               Inr (case vf of None \<Rightarrow> evs | Some v \<Rightarrow> epoch_version v # evs)))"

definition release_number_phase1 :: "processor \<Rightarrow> commit \<Rightarrow> bool \<Rightarrow> py_error + bool" where
  "release_number_phase1 P c children_must_continue =
     (case get_rpmverflags_for_commit P c of
        Inl e \<Rightarrow> Inl e
      | Inr vf \<Rightarrow>
          let l = release_number_locals vf
          in if \<not> truthy_str (rn_epoch_version l) then Inr True
             else
               (case epoch_versions_to_check P (parents c) of
                  Inl e \<Rightarrow> Inl e
                | Inr evs \<Rightarrow> Inr (the_str (rn_epoch_version l) \<in> set evs)))"

definition str_opt_value :: "string option \<Rightarrow> pyvalue" where
  "str_opt_value s = (case s of None \<Rightarrow> VNone | Some t \<Rightarrow> VStr t)"

text \<open>
  One element of the generator handed to \<^verbatim>\<open>max\<close>:
  \<^verbatim>\<open>res["release-number"] if res and epoch_version == res["epoch-version"] else 0\<close>.
\<close>

definition parent_release_number :: "string option \<Rightarrow> commit_result \<Rightarrow> py_error + pyvalue" where
  "parent_release_number ev res =
     (if res = [] then Inr (VInt 0)
      else
        (case getitem res ''epoch-version'' of
           Inl e \<Rightarrow> Inl e
         | Inr v \<Rightarrow>
             if str_opt_value ev = v then getitem res ''release-number''
             else Inr (VInt 0)))"

fun parent_release_numbers :: "string option \<Rightarrow> commit_result list \<Rightarrow> py_error + pyvalue list" where
  "parent_release_numbers ev [] = Inr []"
| "parent_release_numbers ev (res # rest) =
     (case parent_release_number ev res of
        Inl e \<Rightarrow> Inl e
      | Inr v \<Rightarrow>
          (case parent_release_numbers ev rest of
             Inl e \<Rightarrow> Inl e
           | Inr vs \<Rightarrow> Inr (v # vs)))"

fun is_int :: "pyvalue \<Rightarrow> bool" where
  "is_int (VInt i) = True"
| "is_int v = False"

fun int_of :: "pyvalue \<Rightarrow> int" where
  "int_of (VInt i) = i"
| "int_of v = 0"

text \<open>
  \<^verbatim>\<open>max(..., default=0) + 1\<close>: comparing or incrementing anything but integers is a
  TypeError.
\<close>

definition release_number_of :: "string option \<Rightarrow> commit_result list \<Rightarrow> py_error + int" where
  "release_number_of ev parent_results =
     (case parent_release_numbers ev parent_results of
        Inl e \<Rightarrow> Inl e
      | Inr vs \<Rightarrow>
          if list_all is_int vs then Inr (py_max (map int_of vs) 0 + 1)
          else Inl TypeError)"

definition release_number_phase2 ::
  "processor \<Rightarrow> commit \<Rightarrow> bool \<Rightarrow> commit_result \<Rightarrow> commit_result list \<Rightarrow> py_error + commit_result" where
  "release_number_phase2 P c children_must_continue commit_result parent_results =
     (case get_rpmverflags_for_commit P c of
        Inl e \<Rightarrow> Inl e
      | Inr vf \<Rightarrow>
          let l = release_number_locals vf;
              r1 = AList.update ''epoch-version'' (str_opt_value (rn_epoch_version l)) commit_result
          in (case release_number_of (rn_epoch_version l) parent_results of
                Inl e \<Rightarrow> Inl e
              | Inr release_number \<Rightarrow>
                  let r2 = AList.update ''release-number'' (VInt release_number) r1;
                      prerel_str = (if rn_prerelease l = Some True then ''0.'' else []);
                      release_number_with_base = release_number + rn_base l - 1
                  in Inr (AList.update ''release-complete''
                            (VStr (prerel_str @ str_int release_number_with_base @ rn_tag_string l))
                            r2)))"

definition release_number_visitor :: "processor \<Rightarrow> visitor" where
  "release_number_visitor P =
     \<lparr>phase1 = release_number_phase1 P, phase2 = release_number_phase2 P\<rparr>"

section \<open>The changelog visitor\<close>

text \<open>
  \<^verbatim>\<open>fnmatchcase(f, pat)\<close> for patterns made of literal characters, \<^verbatim>\<open>*\<close> (any run
  of characters, slashes included) and \<^verbatim>\<open>?\<close> (any one character).  None of the
  ignore patterns holds a bracket expression, so brackets are not interpreted here.
\<close>

fun fnmatchcase :: "string \<Rightarrow> string \<Rightarrow> bool" where
  "fnmatchcase f [] = (f = [])"
| "fnmatchcase [] (p # ps) = (p = CHR ''*'' \<and> fnmatchcase [] ps)"
| "fnmatchcase (x # xs) (p # ps) =
     (if p = CHR ''*'' then fnmatchcase (x # xs) ps \<or> fnmatchcase xs (p # ps)
      else if p = CHR ''?'' then fnmatchcase xs ps
      else x = p \<and> fnmatchcase xs ps)"

definition opt_list :: "'a option \<Rightarrow> 'a list" where
  "opt_list x = (case x of None \<Rightarrow> [] | Some y \<Rightarrow> [y])"

text \<open>\<^verbatim>\<open>_files_changed_in_diff\<close>; the set is only tested for emptiness and iterated.\<close>

definition files_changed_in_diff :: "delta list \<Rightarrow> string list" where
  "files_changed_in_diff deltas =
     concat (map (\<lambda>d. opt_list (old_file d) @ opt_list (new_file d)) deltas)"

definition specfile_present :: "processor \<Rightarrow> commit \<Rightarrow> bool" where
  "specfile_present P c \<longleftrightarrow> map_of (tree c) (specfile_name P) \<noteq> None"

definition changelog_blob :: "commit \<Rightarrow> blob option" where
  "changelog_blob c = map_of (tree c) ''changelog''"

definition changelog_changed :: "commit \<Rightarrow> bool" where
  "changelog_changed c =
     (if parents c \<noteq> []
      then fold (\<lambda>parent changed.
                  if changelog_blob c = changelog_blob parent then False else changed)
             (parents c) True
      else changelog_blob c \<noteq> None)"

text \<open>
  The \<^verbatim>\<open>for ... else\<close> loop over the parents of a merge commit: \<open>find\<close> gives the
  parent at which the loop breaks, or None when it runs to its \<^verbatim>\<open>else\<close> branch.
\<close>

definition parent_to_follow :: "commit \<Rightarrow> commit option" where
  "parent_to_follow c =
     (if length (parents c) < 2
      then (case parents c of [] \<Rightarrow> None | p # _ \<Rightarrow> Some p)
      else find (\<lambda>parent. tree c = tree parent) (parents c))"

definition merge_unresolvable :: "commit \<Rightarrow> bool" where
  "merge_unresolvable c =
     (if length (parents c) < 2 then False
      else (case find (\<lambda>parent. tree c = tree parent) (parents c) of
              Some p \<Rightarrow> False
            | None \<Rightarrow> \<not> changelog_changed c))"

definition changelog_phase1 :: "processor \<Rightarrow> commit \<Rightarrow> bool \<Rightarrow> py_error + bool" where
  "changelog_phase1 P c children_must_continue =
     Inr (\<not> (changelog_changed c \<or> merge_unresolvable c)
          \<and> specfile_present P c
          \<and> children_must_continue)"

text \<open>\<^verbatim>\<open>d.get("changelog", ())\<close>.\<close>

definition get_changelog :: "commit_result \<Rightarrow> pyvalue" where
  "get_changelog d = (case map_of d ''changelog'' of None \<Rightarrow> VChangelog [] | Some v \<Rightarrow> v)"

text \<open>
  \<^verbatim>\<open>candidate["commit-id"] == parent_to_follow\<close>: the left side is a value stored in a
  result (the walker stores \<^verbatim>\<open>commit.id\<close>, an Oid), the right side is a Commit object
  or None.  An Oid, like a string or an integer, is not equal to an object of another
  type, so the comparison can only hold between None and None.
\<close>

fun value_eq_commit :: "pyvalue \<Rightarrow> commit option \<Rightarrow> bool" where
  "value_eq_commit VNone None = True"
| "value_eq_commit v c = False"

text \<open>The loop over the candidates among the parent results of a commit.\<close>

fun candidate_changelog :: "commit option \<Rightarrow> commit_result list \<Rightarrow> py_error + pyvalue" where
  "candidate_changelog follow [] = Inr (VChangelog [])"
| "candidate_changelog follow (candidate # rest) =
     (case getitem candidate ''commit-id'' of
        Inl e \<Rightarrow> Inl e
      | Inr v \<Rightarrow>
          if value_eq_commit v follow then Inr (get_changelog candidate)
          else candidate_changelog follow rest)"

definition previous_changelog :: "commit \<Rightarrow> commit_result list \<Rightarrow> py_error + pyvalue" where
  "previous_changelog c parent_results =
     (if length (parents c) = 1
      then (case parent_results of
              [] \<Rightarrow> Inl IndexError
            | r # _ \<Rightarrow> Inr (get_changelog r))
      else candidate_changelog (parent_to_follow c) parent_results)"

definition changed_files :: "processor \<Rightarrow> commit \<Rightarrow> string list" where
  "changed_files P c =
     files_changed_in_diff
       (case parent_to_follow c of
          Some p \<Rightarrow> diff_to_tree P (tree p) (tree c)
        | None \<Rightarrow> diff_to_tree P [] (tree c))"

definition skip_for_changelog :: "processor \<Rightarrow> commit \<Rightarrow> bool" where
  "skip_for_changelog P c \<longleftrightarrow>
     changed_files P c \<noteq> []
     \<and> list_all (\<lambda>f. list_ex (\<lambda>pat. fnmatchcase f pat) changelog_ignore_patterns)
         (changed_files P c)"

text \<open>
  \<^verbatim>\<open>datetime.utcfromtimestamp(t)\<close> gives a datetime only for a time in the years 1 to
  9999, that is from 0001-01-01 00:00:00 to 9999-12-31 23:59:59 UTC, counted in seconds
  from 1970.  For any other time it raises: ValueError for a year out of range, and
  OverflowError or OSError where the platform cannot even break the time down; the model
  has the one value \<open>ValueError\<close> for these.
\<close>

definition utcfromtimestamp_ok :: "int \<Rightarrow> bool" where
  "utcfromtimestamp_ok t \<longleftrightarrow> - 62135596800 \<le> t \<and> t \<le> 253402300799"

text \<open>
  \<^verbatim>\<open>changelog_date\<close>: the first statement of phase 2 that can raise, before the
  partial result is read and before any of the branches.
\<close>

definition changelog_date :: "processor \<Rightarrow> commit \<Rightarrow> py_error + string" where
  "changelog_date P c =
     (if utcfromtimestamp_ok (commit_time c) then Inr (strftime P (commit_time c))
      else Inl ValueError)"

definition changelog_header :: "string \<Rightarrow> commit \<Rightarrow> pyvalue \<Rightarrow> pyvalue \<Rightarrow> string" where
  "changelog_header date c ev rc =
     ''* '' @ date @ '' ''
       @ (author_name c @ '' <'' @ author_email c @ ''>'') @ '' ''
       @ (py_str ev @ ''-'' @ py_str rc)"

definition commit_subject :: "commit \<Rightarrow> string" where
  "commit_subject c =
     (let s = strip (case split_on newline (message c) of [] \<Rightarrow> [] | l # _ \<Rightarrow> l)
      in if take 1 s = ''-'' then lstrip (drop 1 s) else s)"

text \<open>The entry synthesised from the commit's log message.\<close>

definition commit_entry :: "processor \<Rightarrow> commit \<Rightarrow> string \<Rightarrow> changelog_entry" where
  "commit_entry P c header =
     (if commit_subject c = []
      then Entry (commit_id c)
             (header @ [newline]
                @ wrap_fill P ''- RPMAUTOSPEC: empty commit log subject after stripping'')
             (Some ''empty commit log subject'')
      else Entry (commit_id c)
             (header @ [newline] @ wrap_fill P (''- '' @ commit_subject c))
             None)"

definition changelog_phase2 ::
  "processor \<Rightarrow> commit \<Rightarrow> bool \<Rightarrow> commit_result \<Rightarrow> commit_result list \<Rightarrow> py_error + commit_result" where
  "changelog_phase2 P c children_must_continue commit_result parent_results =
     (case changelog_date P c of
        Inl e \<Rightarrow> Inl e
      | Inr date \<Rightarrow>
     (case getitem commit_result ''epoch-version'' of
        Inl e \<Rightarrow> Inl e
      | Inr ev \<Rightarrow>
     (case getitem commit_result ''release-complete'' of
        Inl e \<Rightarrow> Inl e
      | Inr rc \<Rightarrow>
          let header = changelog_header date c ev rc
          in if \<not> specfile_present P c
             then Inr (AList.update ''changelog'' (VChangelog []) commit_result)
             else if merge_unresolvable c
             then Inr (AList.update ''changelog''
                         (VChangelog
                            [Entry (commit_id c)
                               (header @ [newline] @ ''- RPMAUTOSPEC: unresolvable merge'')
                               (Some ''unresolvable merge'')])
                         commit_result)
             else if changelog_changed c
             then Inr (AList.update ''changelog''
                         (VChangelog
                            [case changelog_blob c of
                               Some data \<Rightarrow> Entry (commit_id c) data None
                             | None \<Rightarrow>
                                 Entry (commit_id c)
                                   (header @ [newline] @ ''- RPMAUTOSPEC: changelog file removed'')
                                   (Some ''changelog file removed'')])
                         commit_result)
             else
               (case previous_changelog c parent_results of
                  Inl e \<Rightarrow> Inl e
                | Inr previous \<Rightarrow>
                    if \<not> skip_for_changelog P c
                    then (case previous of
                            VChangelog es \<Rightarrow>
                              Inr (AList.update ''changelog''
                                     (VChangelog (commit_entry P c header # es))
                                     commit_result)
                          | _ \<Rightarrow> Inl TypeError)
                    else Inr (AList.update ''changelog'' previous commit_result)))))"

definition changelog_visitor :: "processor \<Rightarrow> visitor" where
  "changelog_visitor P =
     \<lparr>phase1 = changelog_phase1 P, phase2 = changelog_phase2 P\<rparr>"

section \<open>The graph walker\<close>

text \<open>
  \<^verbatim>\<open>repo.walk(head.id)\<close> yields the head and all its ancestors, each once.  The
  dictionary \<^verbatim>\<open>commit_children\<close> built from it is read as a function: the commits
  that were appended under a parent, in the order of the walk.
\<close>

fun ancestors :: "commit \<Rightarrow> commit list" where
  "ancestors (Commit i ps t an ae ct m) =
     Commit i ps t an ae ct m # concat (map ancestors ps)"

definition walk :: "commit \<Rightarrow> commit list" where
  "walk head = remdups (ancestors head)"

definition commit_children :: "commit list \<Rightarrow> commit \<Rightarrow> commit list" where
  "commit_children walked p = [c. c \<leftarrow> walked, parent \<leftarrow> parents c, parent = p]"

text \<open>
  The local variables of \<^verbatim>\<open>_run_on_history\<close>.  A coroutine is determined by its
  visitor, its commit and the flag it was created with, so \<open>commit_coroutines\<close> keeps
  the list of these flags for every visited commit.  \<open>resolved\<close> is not a variable of
  the source: it records, in order, the commits for which the assignment to
  \<^verbatim>\<open>visited_results[commit]\<close> was executed.
\<close>

record history_state =
  commit_coroutines :: "(commit \<times> bool list) list"
  commit_coroutines_must_continue :: "(commit \<times> bool list) list"
  branch_heads :: "commit list"
  branches :: "commit list list"
  visited_results :: "(commit \<times> commit_result) list"
  resolved :: "commit list"

definition has_key :: "('k \<times> 'v) list \<Rightarrow> 'k \<Rightarrow> bool" where
  "has_key d k \<longleftrightarrow> map_of d k \<noteq> None"

fun sequence :: "(py_error + 'a) list \<Rightarrow> py_error + 'a list" where
  "sequence [] = Inr []"
| "sequence (x # xs) =
     (case x of
        Inl e \<Rightarrow> Inl e
      | Inr v \<Rightarrow> (case sequence xs of Inl e \<Rightarrow> Inl e | Inr vs \<Rightarrow> Inr (v # vs)))"

text \<open>
  The \<^verbatim>\<open>reduce\<close> over the children of a commit for the visitor at \<open>vindex\<close>:
  \<^verbatim>\<open>must_continue or commit_coroutines_must_continue[child][vindex]\<close>.
\<close>

fun any_child_must_continue ::
  "(commit \<times> bool list) list \<Rightarrow> nat \<Rightarrow> commit list \<Rightarrow> bool \<Rightarrow> py_error + bool" where
  "any_child_must_continue mc vindex [] must_continue = Inr must_continue"
| "any_child_must_continue mc vindex (child # rest) must_continue =
     (if must_continue then any_child_must_continue mc vindex rest True
      else
        (case map_of mc child of
           None \<Rightarrow> Inl (KeyError ''commit'')
         | Some flags \<Rightarrow>
             if vindex < length flags
             then any_child_must_continue mc vindex rest (flags ! vindex)
             else Inl IndexError))"

text \<open>
  The flags handed to the visitors of a commit; None when a child of the commit has not
  been visited yet, in which case the commit goes back onto \<open>branch_heads\<close>.
\<close>

definition children_visitors_must_continue ::
  "visitor list \<Rightarrow> commit \<Rightarrow> (commit \<Rightarrow> commit list) \<Rightarrow> commit \<Rightarrow> history_state
     \<Rightarrow> py_error + bool list option" where
  "children_visitors_must_continue visitors head children c st =
     (if c = head then Inr (Some (map (\<lambda>v. True) visitors))
      else
        let this_children = children c
        in if \<not> list_all (\<lambda>child. has_key (commit_coroutines st) child) this_children
           then Inr None
           else
             (case sequence
                     (map (\<lambda>vindex.
                             any_child_must_continue (commit_coroutines_must_continue st)
                               vindex this_children False)
                        [0..<length visitors]) of
                Inl e \<Rightarrow> Inl e
              | Inr flags \<Rightarrow> Inr (Some flags)))"

text \<open>
  One round of the inner \<^verbatim>\<open>while True\<close> loop of the first pass, at commit \<open>c\<close>:
  the loop breaks, or goes on with the first parent of \<open>c\<close>.  In the source
  \<^verbatim>\<open>branch\<close> is the list object that was appended to \<^verbatim>\<open>branches\<close> before the
  loop, so appending to it changes the last element of \<^verbatim>\<open>branches\<close>; here \<open>branch\<close>
  is passed along and stored into \<open>branches\<close> where the loop breaks (and left out where
  the source pops the empty branch again).
\<close>

datatype loop_step = Break history_state | Next commit "commit list" history_state

definition discover_commit ::
  "visitor list \<Rightarrow> commit \<Rightarrow> (commit \<Rightarrow> commit list) \<Rightarrow> commit \<Rightarrow> commit list
     \<Rightarrow> history_state \<Rightarrow> py_error + loop_step" where
  "discover_commit visitors head children c branch st =
     (if has_key (commit_coroutines st) c
      then Inr (Break (st\<lparr>branches := branches st @ [branch]\<rparr>))
      else
        (case children_visitors_must_continue visitors head children c st of
           Inl e \<Rightarrow> Inl e
         | Inr None \<Rightarrow>
             Inr (Break (st\<lparr>branch_heads := branch_heads st @ [c],
                            branches := (if branch = [] then branches st
                                         else branches st @ [branch])\<rparr>))
         | Inr (Some flags) \<Rightarrow>
             (case sequence (map (\<lambda>(v, flag). phase1 v c flag) (zip visitors flags)) of
                Inl e \<Rightarrow> Inl e
              | Inr coroutines_must_continue \<Rightarrow>
                  let st1 = st\<lparr>commit_coroutines :=
                                 AList.update c flags (commit_coroutines st),
                               commit_coroutines_must_continue :=
                                 AList.update c coroutines_must_continue
                                   (commit_coroutines_must_continue st)\<rparr>
                  in if \<not> list_ex (\<lambda>b. b) coroutines_must_continue \<or> parents c = []
                     then Inr (Break (st1\<lparr>branches := branches st1 @ [branch @ [c]]\<rparr>))
                     else
                       Inr (Next (hd (parents c)) (branch @ [c])
                              (if length (parents c) > 1
                               then st1\<lparr>branch_heads :=
                                          branch_heads st1
                                            @ filter (\<lambda>p. \<not> has_key (commit_coroutines st1) p)
                                                (tl (parents c))\<rparr>
                               else st1)))))"

text \<open>The inner loop, from one branch head down the first parents.\<close>

function discover_branch ::
  "visitor list \<Rightarrow> commit \<Rightarrow> (commit \<Rightarrow> commit list) \<Rightarrow> commit \<Rightarrow> commit list
     \<Rightarrow> history_state \<Rightarrow> py_error + history_state" where
  "discover_branch visitors head children c branch st =
     (case discover_commit visitors head children c branch st of
        Inl e \<Rightarrow> Inl e
      | Inr (Break st') \<Rightarrow> Inr st'
      | Inr (Next c' branch' st') \<Rightarrow> discover_branch visitors head children c' branch' st')"
  by pat_completeness auto
termination
proof -
  have first_parent: "parents c \<noteq> [] \<Longrightarrow> size (hd (parents c)) < size c" for c :: commit
    by (cases c; cases "parents c") auto
  have smaller: "size c' < size c"
    if "discover_commit visitors head children c branch st = Inr (Next c' branch' st')"
    for visitors head children c branch st c' branch' st'
    using that
    by (auto simp: discover_commit_def Let_def first_parent
        split: if_splits sum.splits option.splits)
  show ?thesis
    by (relation "measure (\<lambda>(visitors, head, children, c, branch, st). size c)")
       (auto simp: smaller)
qed

declare discover_branch.simps [simp del]

text \<open>
  The outer \<^verbatim>\<open>while branch_heads\<close> loop.  It need not end, so it runs on fuel:
  None means that the fuel did not suffice.
\<close>

fun discover ::
  "nat \<Rightarrow> visitor list \<Rightarrow> commit \<Rightarrow> (commit \<Rightarrow> commit list) \<Rightarrow> history_state
     \<Rightarrow> (py_error + history_state) option" where
  "discover 0 visitors head children st = None"
| "discover (Suc fuel) visitors head children st =
     (case branch_heads st of
        [] \<Rightarrow> Some (Inr st)
      | c # rest \<Rightarrow>
          (case discover_branch visitors head children c [] (st\<lparr>branch_heads := rest\<rparr>) of
             Inl e \<Rightarrow> Some (Inl e)
           | Inr st' \<Rightarrow> discover fuel visitors head children st'))"

text \<open>
  The \<^verbatim>\<open>reduce\<close> that pipes the partial result through the second half of every
  coroutine of a commit.
\<close>

fun send_all ::
  "(visitor \<times> bool) list \<Rightarrow> commit \<Rightarrow> commit_result list \<Rightarrow> commit_result
     \<Rightarrow> py_error + commit_result" where
  "send_all [] c parent_results commit_result = Inr commit_result"
| "send_all ((v, flag) # rest) c parent_results commit_result =
     (case phase2 v c flag commit_result parent_results of
        Inl e \<Rightarrow> Inl e
      | Inr r \<Rightarrow> send_all rest c parent_results r)"

definition results_get :: "(commit \<times> commit_result) list \<Rightarrow> commit \<Rightarrow> commit_result" where
  "results_get d p = (case map_of d p of None \<Rightarrow> [] | Some r \<Rightarrow> r)"

text \<open>
  One round of the inner \<^verbatim>\<open>while branch\<close> loop of the second pass, for the commit
  \<open>c\<close> taken from the tail of the branch: None when \<open>c\<close> has a visited parent without
  a result yet, otherwise the state with the result of \<open>c\<close> stored.
\<close>

definition resolve_commit ::
  "visitor list \<Rightarrow> commit \<Rightarrow> history_state \<Rightarrow> py_error + history_state option" where
  "resolve_commit visitors c st =
     (if \<not> list_all (\<lambda>p. has_key (visited_results st) p
                           \<or> \<not> has_key (commit_coroutines st) p) (parents c)
      then Inr None
      else
        let parent_results = map (results_get (visited_results st)) (parents c)
        in (case map_of (commit_coroutines st) c of
              None \<Rightarrow> Inl (KeyError ''commit'')
            | Some flags \<Rightarrow>
                (case send_all (zip visitors flags) c parent_results
                        [(''commit-id'', VOid (commit_id c))] of
                   Inl e \<Rightarrow> Inl e
                 | Inr r \<Rightarrow>
                     Inr (Some (st\<lparr>visited_results := AList.update c r (visited_results st),
                                   resolved := resolved st @ [c]\<rparr>)))))"

text \<open>
  The inner loop: commits are taken from the tail of the branch; at a commit that cannot
  be resolved yet the branch, as it then is, goes back to the end of \<^verbatim>\<open>branches\<close>.
\<close>

function resolve_branch ::
  "visitor list \<Rightarrow> commit list \<Rightarrow> history_state \<Rightarrow> py_error + history_state" where
  "resolve_branch visitors branch st =
     (if branch = [] then Inr st
      else
        (case resolve_commit visitors (last branch) st of
           Inl e \<Rightarrow> Inl e
         | Inr None \<Rightarrow> Inr (st\<lparr>branches := branches st @ [branch]\<rparr>)
         | Inr (Some st') \<Rightarrow> resolve_branch visitors (butlast branch) st'))"
  by pat_completeness auto
termination
  by (relation "measure (\<lambda>(visitors, branch, st). length branch)") auto

declare resolve_branch.simps [simp del]

fun resolve :: "nat \<Rightarrow> visitor list \<Rightarrow> history_state \<Rightarrow> (py_error + history_state) option" where
  "resolve 0 visitors st = None"
| "resolve (Suc fuel) visitors st =
     (case branches st of
        [] \<Rightarrow> Some (Inr st)
      | branch # rest \<Rightarrow>
          (case resolve_branch visitors branch (st\<lparr>branches := rest\<rparr>) of
             Inl e \<Rightarrow> Some (Inl e)
           | Inr st' \<Rightarrow> resolve fuel visitors st'))"

definition initial_state :: "commit \<Rightarrow> history_state" where
  "initial_state head =
     \<lparr>commit_coroutines = [],
      commit_coroutines_must_continue = [],
      branch_heads = [head],
      branches = [],
      visited_results = [],
      resolved = []\<rparr>"

text \<open>Both passes of \<^verbatim>\<open>_run_on_history\<close>, up to the state in which it returns.\<close>

definition run_passes :: "nat \<Rightarrow> visitor list \<Rightarrow> commit \<Rightarrow> (py_error + history_state) option" where
  "run_passes fuel visitors head =
     (case discover fuel visitors head (commit_children (walk head)) (initial_state head) of
        None \<Rightarrow> None
      | Some (Inl e) \<Rightarrow> Some (Inl e)
      | Some (Inr st) \<Rightarrow> resolve fuel visitors st)"

definition run_on_history ::
  "nat \<Rightarrow> visitor list \<Rightarrow> commit \<Rightarrow> (py_error + (commit \<times> commit_result) list) option" where
  "run_on_history fuel visitors head =
     (case run_passes fuel visitors head of
        None \<Rightarrow> None
      | Some (Inl e) \<Rightarrow> Some (Inl e)
      | Some (Inr st) \<Rightarrow> Some (Inr (visited_results st)))"

text \<open>\<^verbatim>\<open>run\<close> for a head given as a commit: all results, or the result of the head.\<close>

datatype run_result =
    AllResults "(commit \<times> commit_result) list"
  | HeadResult commit_result

definition run :: "nat \<Rightarrow> visitor list \<Rightarrow> commit \<Rightarrow> bool \<Rightarrow> (py_error + run_result) option" where
  "run fuel visitors head all_results =
     (case run_on_history fuel visitors head of
        None \<Rightarrow> None
      | Some (Inl e) \<Rightarrow> Some (Inl e)
      | Some (Inr results) \<Rightarrow>
          if all_results then Some (Inr (AllResults results))
          else (case map_of results head of
                  None \<Rightarrow> Some (Inl (KeyError ''commit''))
                | Some r \<Rightarrow> Some (Inr (HeadResult r))))"

section \<open>Invariants of the graph walker\<close>

text \<open>Every visited commit has one coroutine flag for every visitor.\<close>

definition flags_ok :: "visitor list \<Rightarrow> history_state \<Rightarrow> bool" where
  "flags_ok vs st \<longleftrightarrow>
     (\<forall>c flags. map_of (commit_coroutines st) c = Some flags \<longrightarrow> length flags = length vs)"

text \<open>
  The invariant of the second pass, for the commits \<open>pending\<close> on the branches: no
  pending commit occurs twice or has a result, the pending and the resolved commits
  together are the visited ones, the keys of \<open>visited_results\<close> are the resolved commits
  in the order of their resolution, and every visited parent of a resolved commit was
  resolved before it.
\<close>

definition resolution_inv :: "commit list \<Rightarrow> history_state \<Rightarrow> bool" where
  "resolution_inv pending st \<longleftrightarrow>
     distinct pending
     \<and> set pending \<inter> set (resolved st) = {}
     \<and> set pending \<union> set (resolved st) = fst ` set (commit_coroutines st)
     \<and> map fst (visited_results st) = resolved st
     \<and> distinct (resolved st)
     \<and> (\<forall>i<length (resolved st). \<forall>p\<in>set (parents (resolved st ! i)).
           has_key (commit_coroutines st) p \<longrightarrow> p \<in> set (take i (resolved st)))"

text \<open>Every stored result satisfies \<open>I\<close>, and \<open>G\<close> for the stored results of its parents.\<close>

definition results_inv ::
  "(commit_result \<Rightarrow> bool) \<Rightarrow> (commit \<Rightarrow> commit_result \<Rightarrow> commit_result list \<Rightarrow> bool)
     \<Rightarrow> history_state \<Rightarrow> bool" where
  "results_inv I G st \<longleftrightarrow>
     (\<forall>c r. map_of (visited_results st) c = Some r \<longrightarrow>
        I r \<and> G c r (map (results_get (visited_results st)) (parents c)))"

text \<open>
  What a list of visitors guarantees for a property \<open>G\<close> of a result and the parent
  results it was computed from, and a property \<open>I\<close> of single results: from parent
  results that are empty or satisfy \<open>I\<close>, piping the seeded result through phase 2 of
  the visitors gives a result with \<open>G\<close> and \<open>I\<close>.
\<close>

definition visitors_establish ::
  "visitor list \<Rightarrow> (commit_result \<Rightarrow> bool)
     \<Rightarrow> (commit \<Rightarrow> commit_result \<Rightarrow> commit_result list \<Rightarrow> bool) \<Rightarrow> bool" where
  "visitors_establish vs I G \<longleftrightarrow>
     (\<forall>c flags prs r.
        length flags = length vs
        \<longrightarrow> send_all (zip vs flags) c prs [(''commit-id'', VOid (commit_id c))] = Inr r
        \<longrightarrow> (\<forall>pr\<in>set prs. pr = [] \<or> I pr)
        \<longrightarrow> G c r prs \<and> I r)"

text \<open>
  What a parent result adds to the maximum taken by the release number visitor, when the
  parent result is empty or carries the release fields.
\<close>

definition contribution :: "string option \<Rightarrow> commit_result \<Rightarrow> int" where
  "contribution ev pr =
     (if pr \<noteq> [] \<and> map_of pr ''epoch-version'' = Some (str_opt_value ev)
      then (case map_of pr ''release-number'' of Some (VInt m) \<Rightarrow> m | _ \<Rightarrow> 0)
      else 0)"

text \<open>A result with an epoch-version and a release number of at least 1.\<close>

definition release_fields :: "commit_result \<Rightarrow> bool" where
  "release_fields r \<longleftrightarrow>
     r \<noteq> [] \<and> (\<exists>n ev. map_of r ''release-number'' = Some (VInt n) \<and> 1 \<le> n
                \<and> map_of r ''epoch-version'' = Some ev)"

text \<open>Two lists of visitors agree on a set of commits.\<close>

definition visitors_agree :: "commit set \<Rightarrow> visitor list \<Rightarrow> visitor list \<Rightarrow> bool" where
  "visitors_agree S vs1 vs2 \<longleftrightarrow>
     list_all2 (\<lambda>v1 v2. \<forall>c\<in>S. phase1 v1 c = phase1 v2 c \<and> phase2 v1 c = phase2 v2 c) vs1 vs2"

text \<open>All branch heads and all visited commits of a state lie in a set of commits.\<close>

definition within :: "commit set \<Rightarrow> history_state \<Rightarrow> bool" where
  "within S st \<longleftrightarrow>
     set (branch_heads st) \<subseteq> S \<and> fst ` set (commit_coroutines st) \<subseteq> S"

text \<open>Some visitor of a visited commit wants to continue.\<close>

definition wants :: "history_state \<Rightarrow> commit \<Rightarrow> bool" where
  "wants st c \<longleftrightarrow>
     (case map_of (commit_coroutines_must_continue st) c of
        None \<Rightarrow> False
      | Some flags \<Rightarrow> list_ex (\<lambda>b. b) flags)"

text \<open>
  The parents of every visited commit that wants to continue are visited, or wait on
  \<open>branch_heads\<close>, or are the commit \<open>cur\<close> at which the inner loop stands.
\<close>

definition parents_queued :: "commit option \<Rightarrow> history_state \<Rightarrow> bool" where
  "parents_queued cur st \<longleftrightarrow>
     (\<forall>c p. has_key (commit_coroutines st) c \<longrightarrow> wants st c \<longrightarrow> p \<in> set (parents c) \<longrightarrow>
        has_key (commit_coroutines st) p \<or> p \<in> set (branch_heads st) \<or> cur = Some p)"

text \<open>The stored flags of every visited commit are what phase 1 of the visitors yielded.\<close>

definition phase1_recorded :: "visitor list \<Rightarrow> history_state \<Rightarrow> bool" where
  "phase1_recorded vs st \<longleftrightarrow>
     (\<forall>c mcs. map_of (commit_coroutines_must_continue st) c = Some mcs \<longrightarrow>
        (\<exists>flags. length flags = length vs
           \<and> sequence (map (\<lambda>(v, flag). phase1 v c flag) (zip vs flags)) = Inr mcs))"

section \<open>An example repository\<close>

text \<open>
  A processor and a few commits on which the theorems below are instantiated.  The spec
  file of an example commit holds just its epoch-version, which the example rpm query
  prints back (and fails on the content \<open>broken\<close>); the example diff reports every
  top-level path whose blob differs.
\<close>

definition simple_diff :: "tree \<Rightarrow> tree \<Rightarrow> delta list" where
  "simple_diff old new =
     [\<lparr>old_file = Some k, new_file = Some k\<rparr>.
        k \<leftarrow> remdups (map fst old @ map fst new), map_of old k \<noteq> map_of new k]"

definition example_processor :: processor where
  "example_processor =
     \<lparr>name = ''pkg'',
      rpm = (\<lambda>b. if b = ''broken'' then Raised else Output (b @ [newline] @ ''E_S_P0_B'')),
      diff_to_tree = simple_diff,
      strftime = (\<lambda>t. ''Thu Jan 01 1970''),
      wrap_fill = (\<lambda>s. s)\<rparr>"

definition example_commit :: "oid \<Rightarrow> commit list \<Rightarrow> tree \<Rightarrow> string \<Rightarrow> commit" where
  "example_commit i ps t m = Commit i ps t ''A'' ''a@b'' 0 m"

definition ex_root :: commit where
  "ex_root = example_commit 0 [] [(''pkg.spec'', ''1.0'')] ''init''"

definition ex_left :: commit where
  "ex_left = example_commit 1 [ex_root] [(''pkg.spec'', ''1.0''), (''f'', ''x'')] ''add f''"

definition ex_right :: commit where
  "ex_right = example_commit 2 [ex_root] [(''pkg.spec'', ''1.0''), (''g'', ''y'')] ''add g''"

definition ex_merge :: commit where
  "ex_merge = example_commit 3 [ex_left, ex_right] [(''pkg.spec'', ''1.0''), (''f'', ''x'')] ''merge''"

definition ex_broken :: commit where
  "ex_broken = example_commit 4 [ex_root] [(''pkg.spec'', ''broken'')] ''break the spec file''"

definition ex_empty :: commit where
  "ex_empty = example_commit 5 [ex_root] [(''pkg.spec'', ''1.0'')] ''rebuild''"

definition ex_gating :: commit where
  "ex_gating =
     example_commit 6 [ex_root] [(''pkg.spec'', ''1.0''), (''gating.yaml'', ''rules'')]
       ''add gating''"

definition ex_nospec_merge :: commit where
  "ex_nospec_merge = example_commit 7 [ex_left, ex_right] [(''h'', ''z'')] ''drop everything''"

definition ex_unresolvable :: commit where
  "ex_unresolvable =
     example_commit 8 [ex_left, ex_right]
       [(''pkg.spec'', ''1.0''), (''f'', ''x''), (''g'', ''y'')] ''merge both''"

definition example_visitors :: "visitor list" where
  "example_visitors =
     [release_number_visitor example_processor, changelog_visitor example_processor]"

definition ex_release :: commit where
  "ex_release =
     example_commit 9 [ex_root] [(''pkg.spec'', ''2.0''), (''changelog'', ''* new version'')]
       ''new version''"

definition ex_root_result :: commit_result where
  "ex_root_result =
     [(''commit-id'', VOid 0), (''epoch-version'', VStr ''1.0''),
      (''release-number'', VInt 1), (''release-complete'', VStr ''1''),
      (''changelog'',
       VChangelog [Entry 0 (''* Thu Jan 01 1970 A <a@b> 1.0-1'' @ [newline] @ ''- init'') None])]"

definition ex_left_result :: commit_result where
  "ex_left_result =
     [(''commit-id'', VOid 1), (''epoch-version'', VStr ''1.0''),
      (''release-number'', VInt 2), (''release-complete'', VStr ''2''),
      (''changelog'',
       VChangelog
         [Entry 1 (''* Thu Jan 01 1970 A <a@b> 1.0-2'' @ [newline] @ ''- add f'') None,
          Entry 0 (''* Thu Jan 01 1970 A <a@b> 1.0-1'' @ [newline] @ ''- init'') None])]"

definition ex_a1 :: commit where
  "ex_a1 = example_commit 11 [ex_root] [(''pkg.spec'', ''1.0'')] ''a1''"

definition ex_a2 :: commit where
  "ex_a2 = example_commit 12 [ex_a1] [(''pkg.spec'', ''1.0'')] ''a2''"

definition ex_b1 :: commit where
  "ex_b1 = example_commit 21 [ex_root] [(''pkg.spec'', ''1.0'')] ''b1''"

definition ex_b2 :: commit where
  "ex_b2 = example_commit 22 [ex_b1] [(''pkg.spec'', ''1.0'')] ''b2''"

definition ex_b3 :: commit where
  "ex_b3 = example_commit 23 [ex_b2] [(''pkg.spec'', ''1.0'')] ''b3''"

definition ex_b4 :: commit where
  "ex_b4 = example_commit 24 [ex_b3] [(''pkg.spec'', ''1.0'')] ''b4''"

definition ex_three_five :: commit where
  "ex_three_five = example_commit 30 [ex_a2, ex_b4] [(''pkg.spec'', ''1.0'')] ''merge a and b''"

definition ex_release_result :: "oid \<Rightarrow> int \<Rightarrow> string \<Rightarrow> commit_result" where
  "ex_release_result i n s =
     [(''commit-id'', VOid i), (''epoch-version'', VStr ''1.0''),
      (''release-number'', VInt n), (''release-complete'', VStr s)]"

definition other_processor :: processor where
  "other_processor =
     example_processor
       \<lparr>rpm := (\<lambda>b. if b = ''2.0'' then Raised else rpm example_processor b),
        diff_to_tree := (\<lambda>old new. if new = [(''x'', ''y'')] then [] else simple_diff old new)\<rparr>"

text \<open>
  A processor whose rpm query succeeds and prints the epoch-version line only.
\<close>

definition terse_processor :: processor where
  "terse_processor = example_processor \<lparr>rpm := (\<lambda>b. Output (b @ [newline]))\<rparr>"

definition terse_visitors :: "visitor list" where
  "terse_visitors = [release_number_visitor terse_processor, changelog_visitor terse_processor]"

text \<open>A commit like \<open>ex_gating\<close>, made in the year 10000.\<close>

definition ex_far_future :: commit where
  "ex_far_future =
     Commit 10 [ex_root] [(''pkg.spec'', ''1.0''), (''gating.yaml'', ''rules'')]
       ''A'' ''a@b'' 253402300800 ''add gating''"

definition ex_fork :: commit where
  "ex_fork = example_commit 41 [ex_root] [(''pkg.spec'', ''1.0'')] ''fork point''"

definition ex_mid :: commit where
  "ex_mid = example_commit 42 [ex_fork] [(''pkg.spec'', ''1.0''), (''f'', ''x'')] ''work''"

definition ex_bump :: commit where
  "ex_bump = example_commit 43 [ex_mid] [(''pkg.spec'', ''2.0''), (''f'', ''x'')] ''new version''"

definition ex_side :: commit where
  "ex_side = example_commit 44 [ex_fork] [(''pkg.spec'', ''1.0''), (''g'', ''y'')] ''side work''"

definition ex_late_merge :: commit where
  "ex_late_merge =
     example_commit 45 [ex_bump, ex_side]
       [(''pkg.spec'', ''2.0''), (''f'', ''x''), (''g'', ''y'')] ''merge side work''"

text \<open>
  The states after the first and the second round of the first pass on
  \<open>ex_late_merge\<close>, a merge of a side branch that forked before a version bump.
\<close>

definition ex_state_1 :: history_state where
  "ex_state_1 =
     \<lparr>commit_coroutines = [(ex_late_merge, [True, True]), (ex_bump, [True, False])],
      commit_coroutines_must_continue =
        [(ex_late_merge, [True, False]), (ex_bump, [False, False])],
      branch_heads = [ex_side],
      branches = [[ex_late_merge, ex_bump]],
      visited_results = [],
      resolved = []\<rparr>"

definition ex_state_2 :: history_state where
  "ex_state_2 =
     \<lparr>commit_coroutines =
        [(ex_late_merge, [True, True]), (ex_bump, [True, False]), (ex_side, [True, False])],
      commit_coroutines_must_continue =
        [(ex_late_merge, [True, False]), (ex_bump, [False, False]), (ex_side, [True, False])],
      branch_heads = [ex_fork],
      branches = [[ex_late_merge, ex_bump], [ex_side]],
      visited_results = [],
      resolved = []\<rparr>"

section \<open>Properties of the visitors\<close>

lemmas example_defs =
  example_processor_def example_commit_def ex_root_def ex_left_def ex_right_def ex_merge_def
  ex_broken_def ex_empty_def ex_gating_def ex_nospec_merge_def ex_unresolvable_def
  ex_release_def simple_diff_def

lemma get_rpmverflags_example:
  "get_rpmverflags True (Output (''1.0'' @ [newline] @ ''E_S_P0_B'')) = 
    Inr (Some \<lparr>epoch_version = ''1.0'', extraver = None, snapinfo = None, prerelease = Some False, base = Some 1\<rparr>)"
  by (simp add: get_rpmverflags_def strip_def lstrip_def rstrip_def py_isspace_def newline_def
      autorelease_flags_match_def or_none_def is_digit_def)

lemma changelog_changed_fold:
  "fold (\<lambda>parent changed. if b = changelog_blob parent then False else changed) ps acc
     = (acc \<and> (\<forall>p\<in>set ps. changelog_blob p \<noteq> b))"
  by (induction ps arbitrary: acc) auto

lemma changelog_changed_iff:
  "changelog_changed c \<longleftrightarrow>
     (if parents c = [] then changelog_blob c \<noteq> None
      else \<forall>p\<in>set (parents c). changelog_blob p \<noteq> changelog_blob c)"
  by (simp add: changelog_changed_def changelog_changed_fold)

lemma find_SomeD: "find Q xs = Some x \<Longrightarrow> x \<in> set xs \<and> Q x"
  by (induction xs) (auto split: if_splits)

lemma merge_unresolvable_iff:
  "merge_unresolvable c \<longleftrightarrow>
     2 \<le> length (parents c) \<and> (\<forall>p\<in>set (parents c). tree p \<noteq> tree c) \<and> \<not> changelog_changed c"
proof (cases "find (\<lambda>parent. tree c = tree parent) (parents c)")
  case None
  then have "\<forall>p\<in>set (parents c). tree p \<noteq> tree c"
    by (auto simp: find_None_iff)
  with None show ?thesis
    by (auto simp: merge_unresolvable_def)
next
  case (Some q)
  then have "q \<in> set (parents c)" and "tree c = tree q"
    using find_SomeD [OF Some] by blast+
  then have "\<not> (\<forall>p\<in>set (parents c). tree p \<noteq> tree c)"
    by metis
  with Some show ?thesis
    by (simp add: merge_unresolvable_def)
qed

lemma specfile_present_iff:
  "specfile_present P c \<longleftrightarrow> name P @ ''.spec'' \<in> fst ` set (tree c)"
  by (simp add: specfile_present_def specfile_name_def map_of_eq_None_iff)

text \<open>
  C4: the flag that the changelog visitor yields in phase 1 is true exactly when the
  changelog did not change in the commit (a root commit has none; otherwise some parent has
  the same one), the commit is not an unresolvable merge (two or more parents, none with
  the commit's tree, changelog unchanged), the spec file is in the commit's tree, and
  \<open>children_must_continue\<close> is true.
\<close>

theorem changelog_must_continue:
  fixes P :: processor and c :: commit
  defines "unchanged \<equiv>
     (if parents c = [] then map_of (tree c) ''changelog'' = None
      else \<exists>p\<in>set (parents c). map_of (tree p) ''changelog'' = map_of (tree c) ''changelog'')"
  defines "unresolvable \<equiv>
     2 \<le> length (parents c) \<and> (\<forall>p\<in>set (parents c). tree p \<noteq> tree c) \<and> unchanged"
  shows "changelog_phase1 P c children_must_continue =
     Inr (unchanged \<and> \<not> unresolvable \<and> name P @ ''.spec'' \<in> fst ` set (tree c)
          \<and> children_must_continue)"
proof -
  have u: "unchanged \<longleftrightarrow> \<not> changelog_changed c"
    by (auto simp: unchanged_def changelog_changed_iff changelog_blob_def)
  have m: "unresolvable \<longleftrightarrow> merge_unresolvable c"
    by (simp add: unresolvable_def merge_unresolvable_iff u)
  show ?thesis
    by (simp add: changelog_phase1_def u m specfile_present_iff)
qed

theorem changelog_must_continue_witness:
  "changelog_phase1 example_processor ex_merge True = Inr True"
  using changelog_must_continue [where c = ex_merge and P = example_processor and children_must_continue = True]
  by (simp add: example_defs)

lemma epoch_versions_to_check_total:
  "\<forall>p\<in>set ps. \<exists>v. get_rpmverflags_for_commit P p = Inr v \<Longrightarrow>
   \<exists>evs. epoch_versions_to_check P ps = Inr evs
     \<and> set evs = {epoch_version w | p w. p \<in> set ps \<and> get_rpmverflags_for_commit P p = Inr (Some w)}"
proof (induction ps)
  case Nil
  then show ?case by simp
next
  case (Cons p ps)
  then obtain evs where evs: "epoch_versions_to_check P ps = Inr evs"
     "set evs = {epoch_version w | q w. q \<in> set ps \<and> get_rpmverflags_for_commit P q = Inr (Some w)}"
    by auto
  from Cons.prems obtain v where v: "get_rpmverflags_for_commit P p = Inr v" by auto
  show ?case
  proof (cases v)
    case None
    with v evs show ?thesis by auto
  next
    case (Some w)
    with v evs show ?thesis by auto
  qed
qed

text \<open>
  C6: in phase 1 of the release number visitor, a commit without an epoch-version (no
  metadata, or an empty epoch-version) must continue; otherwise it must continue exactly
  when the metadata of at least one parent gives the same epoch-version.  The metadata
  queries are assumed not to raise.
\<close>

theorem release_number_must_continue:
  assumes "get_rpmverflags_for_commit P c = Inr vf"
    and "\<forall>p\<in>set (parents c). \<exists>v. get_rpmverflags_for_commit P p = Inr v"
  shows "release_number_phase1 P c children_must_continue =
     Inr (case vf of
            None \<Rightarrow> True
          | Some v \<Rightarrow>
              epoch_version v = []
              \<or> (\<exists>p\<in>set (parents c). \<exists>w.
                    get_rpmverflags_for_commit P p = Inr (Some w)
                    \<and> epoch_version w = epoch_version v))"
proof (cases vf)
  case None
  with assms(1) show ?thesis
    by (simp add: release_number_phase1_def release_number_locals_def truthy_str_def)
next
  case (Some v)
  from epoch_versions_to_check_total [OF assms(2)] obtain evs where
    evs: "epoch_versions_to_check P (parents c) = Inr evs"
      "set evs = {epoch_version w | p w. p \<in> set (parents c) \<and> get_rpmverflags_for_commit P p = Inr (Some w)}"
    by blast
  show ?thesis
  proof (cases "epoch_version v = []")
    case True
    with Some assms(1) show ?thesis
      by (simp add: release_number_phase1_def release_number_locals_def truthy_str_def)
  next
    case False
    have "epoch_version v \<in> set evs \<longleftrightarrow>
        (\<exists>p\<in>set (parents c). \<exists>w. get_rpmverflags_for_commit P p = Inr (Some w)
            \<and> epoch_version w = epoch_version v)"
      unfolding evs(2) mem_Collect_eq by metis
    with False Some assms(1) evs(1) show ?thesis
      by (simp add: release_number_phase1_def release_number_locals_def truthy_str_def the_str_def)
  qed
qed


theorem release_number_must_continue_witness:
  "release_number_phase1 example_processor ex_left True = Inr True"
proof -
  have v: "\<And>c. map_of (tree c) ''pkg.spec'' = Some ''1.0'' \<Longrightarrow> get_rpmverflags_for_commit example_processor c = 
      Inr (Some \<lparr>epoch_version = ''1.0'', extraver = None, snapinfo = None, prerelease = Some False, base = Some 1\<rparr>)"
    using get_rpmverflags_example
    by (simp add: get_rpmverflags_for_commit_def specfile_name_def example_processor_def)
  have 1: "get_rpmverflags_for_commit example_processor ex_left =
      Inr (Some \<lparr>epoch_version = ''1.0'', extraver = None, snapinfo = None, prerelease = Some False, base = Some 1\<rparr>)"
    by (rule v) (simp add: ex_left_def example_commit_def)
  have 2: "get_rpmverflags_for_commit example_processor ex_root =
      Inr (Some \<lparr>epoch_version = ''1.0'', extraver = None, snapinfo = None, prerelease = Some False, base = Some 1\<rparr>)"
    by (rule v) (simp add: ex_root_def example_commit_def)
  have p: "parents ex_left = [ex_root]"
    by (simp add: ex_left_def example_commit_def)
  have 3: "\<forall>p\<in>set (parents ex_left). \<exists>v. get_rpmverflags_for_commit example_processor p = Inr v"
    by (simp add: p 2)
  show ?thesis
    using release_number_must_continue [OF 1 3, of True] by (simp add: p 2)
qed

text \<open>
  The metadata query returns None, and does not raise, when the spec file is missing or
  the rpm call itself raises, for a directory as well as for a commit.  The release number
  visitor then continues in phase 1 and in phase 2 records the epoch-version None with
  base 1 and no tags; phase 2 fails only where the parent results make it fail.
\<close>

theorem metadata_unavailable:
  "(\<not> specfile_exists \<or> check_output = Raised \<longrightarrow>
      get_rpmverflags specfile_exists check_output = Inr None)
   \<and> (map_of (tree c) (specfile_name P) = None
        \<or> (\<exists>b. map_of (tree c) (specfile_name P) = Some b \<and> rpm P b = Raised) \<longrightarrow>
      get_rpmverflags_for_commit P c = Inr None
      \<and> release_number_phase1 P c children_must_continue = Inr True
      \<and> release_number_phase2 P c children_must_continue commit_result parent_results =
          (case release_number_of None parent_results of
             Inl e \<Rightarrow> Inl e
           | Inr n \<Rightarrow>
               Inr (AList.update ''release-complete'' (VStr (str_int n))
                     (AList.update ''release-number'' (VInt n)
                       (AList.update ''epoch-version'' VNone commit_result)))))"
proof -
  have a: "\<not> specfile_exists \<or> check_output = Raised \<longrightarrow>
      get_rpmverflags specfile_exists check_output = Inr None"
    by (auto simp: get_rpmverflags_def)
  have b: "get_rpmverflags_for_commit P c = Inr None"
    if "map_of (tree c) (specfile_name P) = None
        \<or> (\<exists>b. map_of (tree c) (specfile_name P) = Some b \<and> rpm P b = Raised)"
    using that by (auto simp: get_rpmverflags_for_commit_def get_rpmverflags_def)
  show ?thesis
    using a b
    by (auto simp: release_number_phase1_def release_number_phase2_def release_number_locals_def
        truthy_str_def str_opt_value_def split: sum.splits)
qed

theorem metadata_unavailable_witness:
  "get_rpmverflags_for_commit example_processor ex_broken = Inr None
   \<and> release_number_phase1 example_processor ex_broken False = Inr True
   \<and> release_number_phase2 example_processor ex_broken False [(''commit-id'', VOid 4)] [[]] =
       Inr [(''commit-id'', VOid 4), (''epoch-version'', VNone), (''release-number'', VInt 1),
            (''release-complete'', VStr ''1'')]
   \<and> run 10 example_visitors ex_broken False =
       Some (Inr (HeadResult
         [(''commit-id'', VOid 4), (''epoch-version'', VNone),
          (''release-number'', VInt 1), (''release-complete'', VStr ''1''),
          (''changelog'',
           VChangelog
            [Entry 4 (''* Thu Jan 01 1970 A <a@b> None-1'' @ [newline]
                        @ ''- break the spec file'') None,
             Entry 0 (''* Thu Jan 01 1970 A <a@b> 1.0-1'' @ [newline] @ ''- init'') None])]))"
proof -
  have run: "run 10 example_visitors ex_broken False =
       Some (Inr (HeadResult
         [(''commit-id'', VOid 4), (''epoch-version'', VNone),
          (''release-number'', VInt 1), (''release-complete'', VStr ''1''),
          (''changelog'',
           VChangelog
            [Entry 4 (''* Thu Jan 01 1970 A <a@b> None-1'' @ [newline]
                        @ ''- break the spec file'') None,
             Entry 0 (''* Thu Jan 01 1970 A <a@b> 1.0-1'' @ [newline] @ ''- init'') None])]))"
    by code_simp
  have h: "map_of (tree ex_broken) (specfile_name example_processor) = None
        \<or> (\<exists>b. map_of (tree ex_broken) (specfile_name example_processor) = Some b
              \<and> rpm example_processor b = Raised)"
    by (simp add: example_defs specfile_name_def)
  have n: "release_number_of None [[]] = Inr 1"
    by (simp add: release_number_of_def parent_release_number_def py_max_def)
  have s: "str_int 1 = ''1''"
    by (simp add: str_int_def str_nat.simps)
  show ?thesis
    using metadata_unavailable [where c = ex_broken and P = example_processor
        and children_must_continue = False and commit_result = "[(''commit-id'', VOid 4)]"
        and parent_results = "[[]]"] h run
    by (simp add: n s)
qed


text \<open>
  C7: the query does raise when the rpm call succeeds with less than two lines of output.
  An rpm that exits with status 0 and prints \<^verbatim>\<open>1.0\<close> and a newline makes
  \<^verbatim>\<open>split_output[1]\<close> raise IndexError, after the block that turns every failure of
  the call into None.  The error leaves the query for a commit, phase 1 of the release
  number visitor and the whole run; with the rpm call raising instead, the same run
  returns (see \<open>metadata_unavailable\<close>).
\<close>

theorem malformed_output_raises:
  "get_rpmverflags True (Output (''1.0'' @ [newline])) = Inl IndexError
   \<and> get_rpmverflags_for_commit terse_processor ex_root = Inl IndexError
   \<and> release_number_phase1 terse_processor ex_root True = Inl IndexError
   \<and> run 10 terse_visitors ex_root False = Some (Inl IndexError)
   \<and> run 10 terse_visitors ex_root True = Some (Inl IndexError)"
  by code_simp

lemma getitem_Some: "map_of d k = Some v \<Longrightarrow> getitem d k = Inr v"
  by (simp add: getitem_def)

lemma previous_changelog_le1:
  assumes "length (parents c) \<le> 1" and "length parent_results = length (parents c)"
  shows "previous_changelog c parent_results =
     Inr (case parent_results of [] \<Rightarrow> VChangelog [] | r # _ \<Rightarrow> get_changelog r)"
proof (cases "parents c")
  case Nil
  with assms show ?thesis by (simp add: previous_changelog_def)
next
  case (Cons p ps)
  with assms have "length (parents c) = 1" by simp
  with assms(2) show ?thesis
    by (cases parent_results) (simp_all add: previous_changelog_def)
qed

lemma merge_resolvable_le1: "length (parents c) \<le> 1 \<Longrightarrow> \<not> merge_unresolvable c"
  by (simp add: merge_unresolvable_def)

text \<open>
  Phase 2 of the changelog visitor raises, whatever the commit is otherwise, when no date
  exists for its commit time.
\<close>

lemma changelog_phase2_no_date:
  "\<not> utcfromtimestamp_ok (commit_time c) \<Longrightarrow>
   changelog_phase2 P c children_must_continue commit_result parent_results = Inl ValueError"
  by (simp add: changelog_phase2_def changelog_date_def)

lemma changelog_phase2_no_date_example:
  "changed_files example_processor ex_far_future = [''gating.yaml'', ''gating.yaml'']
   \<and> \<not> utcfromtimestamp_ok (commit_time ex_far_future)
   \<and> run 10 example_visitors ex_far_future False = Some (Inl ValueError)"
  by code_simp

text \<open>
  C2 (as amended): take a commit with at most one parent, the spec file in its tree, an
  unchanged changelog and a commit time in the years 1 to 9999, and a partial result that
  carries the release fields.  If at least
  one path changed against the parent (the empty tree for a root commit) and every changed
  path matches an ignore pattern, the commit's changelog is the parent's changelog sequence
  (the empty one for a root commit) with nothing prepended; if no path changed at all, an
  entry for the commit is prepended to it.
\<close>

theorem inherit_changelog:
  assumes "length (parents c) \<le> 1"
    and "specfile_present P c"
    and "\<not> changelog_changed c"
    and "utcfromtimestamp_ok (commit_time c)"
    and "map_of commit_result ''epoch-version'' = Some ev"
    and "map_of commit_result ''release-complete'' = Some rc"
    and "length parent_results = length (parents c)"
    and "(case parent_results of [] \<Rightarrow> VChangelog [] | r # _ \<Rightarrow> get_changelog r) = VChangelog previous"
  shows "(changed_files P c \<noteq> []
            \<and> (\<forall>f\<in>set (changed_files P c). \<exists>pat\<in>set changelog_ignore_patterns. fnmatchcase f pat)
          \<longrightarrow> changelog_phase2 P c children_must_continue commit_result parent_results =
                Inr (AList.update ''changelog'' (VChangelog previous) commit_result))
       \<and> (changed_files P c = []
          \<longrightarrow> changelog_phase2 P c children_must_continue commit_result parent_results =
                Inr (AList.update ''changelog''
                       (VChangelog
                          (commit_entry P c (changelog_header (strftime P (commit_time c)) c ev rc)
                           # previous))
                       commit_result))"
proof -
  have prev: "previous_changelog c parent_results = Inr (VChangelog previous)"
    using previous_changelog_le1 [OF assms(1) assms(7)] assms(8) by simp
  have skip: "skip_for_changelog P c \<longleftrightarrow>
      changed_files P c \<noteq> []
      \<and> (\<forall>f\<in>set (changed_files P c). \<exists>pat\<in>set changelog_ignore_patterns. fnmatchcase f pat)"
    by (simp add: skip_for_changelog_def list_all_iff list_ex_iff)
  show ?thesis
    using assms(2,3,4) merge_resolvable_le1 [OF assms(1)] prev
    by (simp add: changelog_phase2_def changelog_date_def
        getitem_Some [OF assms(5)] getitem_Some [OF assms(6)] skip)
qed

lemma str_int_1: "str_int 1 = ''1''" by (simp add: str_int_def str_nat.simps)
lemma str_int_2: "str_int 2 = ''2''" by (simp add: str_int_def str_nat.simps)

theorem inherit_changelog_witness:
  "changed_files example_processor ex_gating = [''gating.yaml'', ''gating.yaml'']
   \<and> changelog_phase2 example_processor ex_gating True
        [(''commit-id'', VOid 6), (''epoch-version'', VStr ''1.0''),
         (''release-number'', VInt 2), (''release-complete'', VStr ''2'')]
        [[(''commit-id'', VOid 0), (''changelog'', VChangelog [Entry 0 ''A'' None, Entry 0 ''B'' None])]]
      = Inr [(''commit-id'', VOid 6), (''epoch-version'', VStr ''1.0''),
             (''release-number'', VInt 2), (''release-complete'', VStr ''2''),
             (''changelog'', VChangelog [Entry 0 ''A'' None, Entry 0 ''B'' None])]"
proof -
  have cf: "changed_files example_processor ex_gating = [''gating.yaml'', ''gating.yaml'']"
    by (simp add: changed_files_def parent_to_follow_def files_changed_in_diff_def opt_list_def
        example_defs)
  have ign: "\<forall>f\<in>set (changed_files example_processor ex_gating).
      \<exists>pat\<in>set changelog_ignore_patterns. fnmatchcase f pat"
    by (simp add: cf changelog_ignore_patterns_def)
  have 1: "length (parents ex_gating) \<le> 1"
    by (simp add: example_defs)
  have 2: "specfile_present example_processor ex_gating"
    by (simp add: specfile_present_def specfile_name_def example_defs)
  have 3: "\<not> changelog_changed ex_gating"
    by (simp add: changelog_changed_def changelog_blob_def example_defs)
  have 4: "utcfromtimestamp_ok (commit_time ex_gating)"
    by (simp add: utcfromtimestamp_ok_def example_defs)
  show ?thesis
    using inherit_changelog [where c = ex_gating and P = example_processor
        and commit_result = "[(''commit-id'', VOid 6), (''epoch-version'', VStr ''1.0''),
         (''release-number'', VInt 2), (''release-complete'', VStr ''2'')]"
        and parent_results = "[[(''commit-id'', VOid 0), (''changelog'', VChangelog [Entry 0 ''A'' None, Entry 0 ''B'' None])]]"
        and ev = "VStr ''1.0''" and rc = "VStr ''2''" and previous = "[Entry 0 ''A'' None, Entry 0 ''B'' None]"
        and children_must_continue = True, OF 1 2 3 4] ign cf
    by (simp add: get_changelog_def example_defs)
qed

text \<open>
  C2 as stated fails on a commit that changes nothing: the empty commit \<open>ex_empty\<close> on
  top of \<open>ex_root\<close> gets an entry of its own in front of the inherited one.
\<close>

theorem inherit_changelog_counterexample:
  "\<not> changelog_changed ex_empty
   \<and> \<not> merge_unresolvable ex_empty
   \<and> parent_to_follow ex_empty = Some ex_root
   \<and> changed_files example_processor ex_empty = []
   \<and> run 10 example_visitors ex_root False =
       Some (Inr (HeadResult
         [(''commit-id'', VOid 0), (''epoch-version'', VStr ''1.0''),
          (''release-number'', VInt 1), (''release-complete'', VStr ''1''),
          (''changelog'',
           VChangelog
            [Entry 0 (''* Thu Jan 01 1970 A <a@b> 1.0-1'' @ [newline] @ ''- init'') None])]))
   \<and> run 10 example_visitors ex_empty False =
       Some (Inr (HeadResult
         [(''commit-id'', VOid 5), (''epoch-version'', VStr ''1.0''),
          (''release-number'', VInt 2), (''release-complete'', VStr ''2''),
          (''changelog'',
           VChangelog
            [Entry 5 (''* Thu Jan 01 1970 A <a@b> 1.0-2'' @ [newline] @ ''- rebuild'') None,
             Entry 0 (''* Thu Jan 01 1970 A <a@b> 1.0-1'' @ [newline] @ ''- init'') None])]))"
  by code_simp

text \<open>
  C3: the merge commit \<open>ex_merge\<close> has the tree of its first parent \<open>ex_left\<close>, which
  is the parent to follow, and its changelog did not change; yet its changelog holds only
  its own entry, and the two entries of \<open>ex_left\<close> are not inherited.
\<close>

theorem merge_changelog_not_inherited:
  "parent_to_follow ex_merge = Some ex_left
   \<and> \<not> changelog_changed ex_merge
   \<and> \<not> merge_unresolvable ex_merge
   \<and> run 10 example_visitors ex_left False =
       Some (Inr (HeadResult
         [(''commit-id'', VOid 1), (''epoch-version'', VStr ''1.0''),
          (''release-number'', VInt 2), (''release-complete'', VStr ''2''),
          (''changelog'',
           VChangelog
            [Entry 1 (''* Thu Jan 01 1970 A <a@b> 1.0-2'' @ [newline] @ ''- add f'') None,
             Entry 0 (''* Thu Jan 01 1970 A <a@b> 1.0-1'' @ [newline] @ ''- init'') None])]))
   \<and> run 10 example_visitors ex_merge False =
       Some (Inr (HeadResult
         [(''commit-id'', VOid 3), (''epoch-version'', VStr ''1.0''),
          (''release-number'', VInt 3), (''release-complete'', VStr ''3''),
          (''changelog'',
           VChangelog
            [Entry 3 (''* Thu Jan 01 1970 A <a@b> 1.0-3'' @ [newline] @ ''- merge'') None])]))"
  by code_simp

text \<open>
  C5 (as amended): a merge commit none of whose parents has its tree, whose changelog is
  that of at least one parent, whose tree holds the spec file and whose commit time is in
  the years 1 to 9999 gets, whatever the parent results are, a changelog of exactly one
  entry, tagged \<open>unresolvable merge\<close>.
\<close>

theorem unresolvable_merge_entry:
  assumes "2 \<le> length (parents c)"
    and "\<forall>p\<in>set (parents c). tree p \<noteq> tree c"
    and "\<exists>p\<in>set (parents c). changelog_blob p = changelog_blob c"
    and "specfile_present P c"
    and "utcfromtimestamp_ok (commit_time c)"
    and "map_of commit_result ''epoch-version'' = Some ev"
    and "map_of commit_result ''release-complete'' = Some rc"
  shows "changelog_phase2 P c children_must_continue commit_result parent_results =
     Inr (AList.update ''changelog''
            (VChangelog
               [Entry (commit_id c)
                  (changelog_header (strftime P (commit_time c)) c ev rc @ [newline]
                     @ ''- RPMAUTOSPEC: unresolvable merge'')
                  (Some ''unresolvable merge'')])
            commit_result)"
proof -
  from assms(1,3) have "\<not> changelog_changed c"
    by (auto simp: changelog_changed_iff)
  with assms(1,2) have "merge_unresolvable c"
    by (simp add: merge_unresolvable_iff)
  with assms(4,5) show ?thesis
    by (simp add: changelog_phase2_def changelog_date_def
        getitem_Some [OF assms(6)] getitem_Some [OF assms(7)])
qed

theorem unresolvable_merge_entry_witness:
  "changelog_phase2 example_processor ex_unresolvable True
      [(''commit-id'', VOid 8), (''epoch-version'', VStr ''1.0''),
       (''release-number'', VInt 3), (''release-complete'', VStr ''3'')]
      [[(''commit-id'', VOid 1), (''changelog'', VChangelog [Entry 1 ''A'' None])],
       [(''commit-id'', VOid 2), (''changelog'', VChangelog [Entry 2 ''B'' None])]]
    = Inr [(''commit-id'', VOid 8), (''epoch-version'', VStr ''1.0''),
           (''release-number'', VInt 3), (''release-complete'', VStr ''3''),
           (''changelog'',
            VChangelog
              [Entry 8 (''* Thu Jan 01 1970 A <a@b> 1.0-3'' @ [newline]
                          @ ''- RPMAUTOSPEC: unresolvable merge'')
                 (Some ''unresolvable merge'')])]"
proof -
  have 1: "2 \<le> length (parents ex_unresolvable)"
    by (simp add: example_defs)
  have 2: "\<forall>p\<in>set (parents ex_unresolvable). tree p \<noteq> tree ex_unresolvable"
    by (simp add: example_defs)
  have 3: "\<exists>p\<in>set (parents ex_unresolvable). changelog_blob p = changelog_blob ex_unresolvable"
    by (simp add: changelog_blob_def example_defs)
  have 4: "specfile_present example_processor ex_unresolvable"
    by (simp add: specfile_present_def specfile_name_def example_defs)
  have 5: "utcfromtimestamp_ok (commit_time ex_unresolvable)"
    by (simp add: utcfromtimestamp_ok_def example_defs)
  show ?thesis
    using unresolvable_merge_entry [where c = ex_unresolvable and P = example_processor
        and commit_result = "[(''commit-id'', VOid 8), (''epoch-version'', VStr ''1.0''),
       (''release-number'', VInt 3), (''release-complete'', VStr ''3'')]"
        and ev = "VStr ''1.0''" and rc = "VStr ''3''" and children_must_continue = True,
        OF 1 2 3 4 5]
    by (simp add: changelog_header_def example_defs)
qed

text \<open>
  C5 as stated fails on an unresolvable merge without the spec file in its tree: its
  changelog is empty.
\<close>

theorem unresolvable_merge_counterexample:
  "length (parents ex_nospec_merge) = 2
   \<and> tree ex_left \<noteq> tree ex_nospec_merge
   \<and> tree ex_right \<noteq> tree ex_nospec_merge
   \<and> parents ex_nospec_merge = [ex_left, ex_right]
   \<and> changelog_blob ex_left = changelog_blob ex_nospec_merge
   \<and> merge_unresolvable ex_nospec_merge
   \<and> run 10 example_visitors ex_nospec_merge False =
       Some (Inr (HeadResult
         [(''commit-id'', VOid 7), (''epoch-version'', VNone),
          (''release-number'', VInt 1), (''release-complete'', VStr ''1''),
          (''changelog'', VChangelog [])]))"
  by code_simp

section \<open>Properties of the graph walker\<close>

lemma has_key_iff: "has_key d k \<longleftrightarrow> k \<in> fst ` set d"
  by (simp add: has_key_def map_of_eq_None_iff)

lemma keys_update: "fst ` set (AList.update k v d) = insert k (fst ` set d)"
  by (simp add: dom_update)

lemma sequence_length: "sequence xs = Inr ys \<Longrightarrow> length ys = length xs"
  by (induction xs arbitrary: ys) (auto split: sum.splits)

lemma children_visitors_must_continue_length:
  "children_visitors_must_continue vs head cc c st = Inr (Some flags) \<Longrightarrow> length flags = length vs"
  by (auto simp: children_visitors_must_continue_def Let_def
      split: if_splits sum.splits dest: sequence_length)

lemma discover_commit_NextD:
  assumes "discover_commit vs head cc c branch st = Inr (Next c' branch' st')"
  shows "\<not> has_key (commit_coroutines st) c \<and> parents c \<noteq> [] \<and> c' = hd (parents c)
    \<and> branch' = branch @ [c]
    \<and> (\<exists>flags. length flags = length vs
          \<and> commit_coroutines st' = AList.update c flags (commit_coroutines st))
    \<and> branches st' = branches st
    \<and> visited_results st' = visited_results st \<and> resolved st' = resolved st"
  using assms unfolding discover_commit_def Let_def
  by (auto split: if_splits sum.splits option.splits
      dest: children_visitors_must_continue_length)

lemma discover_commit_BreakD:
  assumes "discover_commit vs head cc c branch st = Inr (Break st')"
  shows "visited_results st' = visited_results st \<and> resolved st' = resolved st
    \<and> (commit_coroutines st' = commit_coroutines st
          \<and> (has_key (commit_coroutines st) c \<or> branch = [])
          \<and> concat (branches st') = concat (branches st) @ branch
        \<or> \<not> has_key (commit_coroutines st) c
          \<and> commit_coroutines st' = commit_coroutines st
          \<and> branches st' = branches st @ [branch]
        \<or> \<not> has_key (commit_coroutines st) c
          \<and> (\<exists>flags. length flags = length vs
                \<and> commit_coroutines st' = AList.update c flags (commit_coroutines st))
          \<and> branches st' = branches st @ [branch @ [c]])"
  using assms unfolding discover_commit_def Let_def
  by (auto split: if_splits sum.splits option.splits
      dest: children_visitors_must_continue_length)

lemma discover_commit_Break:
  assumes "discover_commit vs head cc c branch st = Inr (Break st')"
    and "distinct (concat (branches st) @ branch)"
    and "set (concat (branches st) @ branch) = fst ` set (commit_coroutines st)"
  shows "distinct (concat (branches st'))
    \<and> set (concat (branches st')) = fst ` set (commit_coroutines st')
    \<and> visited_results st' = visited_results st \<and> resolved st' = resolved st"
proof -
  note d = discover_commit_BreakD [OF assms(1)]
  from d consider
      (same) "commit_coroutines st' = commit_coroutines st"
        "concat (branches st') = concat (branches st) @ branch"
    | (new) flags where "\<not> has_key (commit_coroutines st) c"
        "commit_coroutines st' = AList.update c flags (commit_coroutines st)"
        "branches st' = branches st @ [branch @ [c]]"
    by auto
  then have "distinct (concat (branches st'))
    \<and> set (concat (branches st')) = fst ` set (commit_coroutines st')"
  proof cases
    case same
    with assms(2,3) show ?thesis by simp
  next
    case new
    from new(1) assms(3) have "c \<notin> set (concat (branches st) @ branch)"
      by (simp add: has_key_iff)
    with new(2,3) assms(2,3) show ?thesis
      by (auto simp: keys_update)
  qed
  with d show ?thesis by simp
qed

lemma discover_commit_Next:
  assumes "discover_commit vs head cc c branch st = Inr (Next c' branch' st')"
    and "distinct (concat (branches st) @ branch)"
    and "set (concat (branches st) @ branch) = fst ` set (commit_coroutines st)"
  shows "distinct (concat (branches st') @ branch')
    \<and> set (concat (branches st') @ branch') = fst ` set (commit_coroutines st')
    \<and> visited_results st' = visited_results st \<and> resolved st' = resolved st"
proof -
  note d = discover_commit_NextD [OF assms(1)]
  then obtain flags where
    f: "commit_coroutines st' = AList.update c flags (commit_coroutines st)"
    by blast
  from d assms(3) have "c \<notin> set (concat (branches st) @ branch)"
    by (simp add: has_key_iff)
  with d f assms(2,3) show ?thesis
    by (auto simp: keys_update)
qed

lemma discover_branch_inv:
  assumes "discover_branch vs head cc c branch st = Inr st'"
    and "distinct (concat (branches st) @ branch)"
    and "set (concat (branches st) @ branch) = fst ` set (commit_coroutines st)"
  shows "distinct (concat (branches st'))
    \<and> set (concat (branches st')) = fst ` set (commit_coroutines st')
    \<and> visited_results st' = visited_results st \<and> resolved st' = resolved st"
  using assms
proof (induction vs head cc c branch st rule: discover_branch.induct)
  case (1 visitors head children c branch st)
  show ?case
  proof (cases "discover_commit visitors head children c branch st")
    case (Inl e)
    with "1.prems"(1) show ?thesis
      by (simp add: discover_branch.simps [of visitors head children c branch st])
  next
    case (Inr step)
    show ?thesis
    proof (cases step)
      case (Break st1)
      with Inr "1.prems"(1) have "st' = st1"
        by (simp add: discover_branch.simps [of visitors head children c branch st])
      with Break Inr have "discover_commit visitors head children c branch st = Inr (Break st')"
        by simp
      from discover_commit_Break [OF this "1.prems"(2,3)] show ?thesis .
    next
      case (Next c1 branch1 st1)
      with Inr "1.prems"(1) have run: "discover_branch visitors head children c1 branch1 st1 = Inr st'"
        by (simp add: discover_branch.simps [of visitors head children c branch st])
      from Next Inr have "discover_commit visitors head children c branch st = Inr (Next c1 branch1 st1)"
        by simp
      from discover_commit_Next [OF this "1.prems"(2,3)] have
        inv: "distinct (concat (branches st1) @ branch1)"
          "set (concat (branches st1) @ branch1) = fst ` set (commit_coroutines st1)"
          "visited_results st1 = visited_results st" "resolved st1 = resolved st"
        by simp_all
      from "1.IH" [OF Inr Next run inv(1,2)] inv(3,4) show ?thesis
        by simp
    qed
  qed
qed

lemma discover_inv:
  assumes "discover fuel vs head cc st = Some (Inr st')"
    and "distinct (concat (branches st))"
    and "set (concat (branches st)) = fst ` set (commit_coroutines st)"
  shows "distinct (concat (branches st'))
    \<and> set (concat (branches st')) = fst ` set (commit_coroutines st')
    \<and> visited_results st' = visited_results st \<and> resolved st' = resolved st"
  using assms
proof (induction fuel arbitrary: st)
  case 0
  then show ?case by simp
next
  case (Suc fuel)
  show ?case
  proof (cases "branch_heads st")
    case Nil
    with Suc.prems show ?thesis by simp
  next
    case (Cons c rest)
    show ?thesis
    proof (cases "discover_branch vs head cc c [] (st\<lparr>branch_heads := rest\<rparr>)")
      case (Inl e)
      with Cons Suc.prems(1) show ?thesis by simp
    next
      case (Inr st1)
      with Cons Suc.prems(1) have run: "discover fuel vs head cc st1 = Some (Inr st')"
        by simp
      from discover_branch_inv [OF Inr] Suc.prems(2,3) have
        inv: "distinct (concat (branches st1))"
          "set (concat (branches st1)) = fst ` set (commit_coroutines st1)"
          "visited_results st1 = visited_results st" "resolved st1 = resolved st"
        by simp_all
      from Suc.IH [OF run inv(1,2)] inv(3,4) show ?thesis by simp
    qed
  qed
qed

lemma discover_branch_rule:
  assumes run: "discover_branch vs head cc c branch st = Inr st'"
    and start: "Q c branch st"
    and "next": "\<And>c branch st c' branch' st1.
        Q c branch st \<Longrightarrow> discover_commit vs head cc c branch st = Inr (Next c' branch' st1)
        \<Longrightarrow> Q c' branch' st1"
    and break: "\<And>c branch st st1.
        Q c branch st \<Longrightarrow> discover_commit vs head cc c branch st = Inr (Break st1) \<Longrightarrow> R st1"
  shows "R st'"
  using assms
proof (induction vs head cc c branch st rule: discover_branch.induct)
  case (1 visitors head children c branch st)
  show ?case
  proof (cases "discover_commit visitors head children c branch st")
    case (Inl e)
    with "1.prems"(1) show ?thesis
      by (simp add: discover_branch.simps [of visitors head children c branch st])
  next
    case (Inr step)
    show ?thesis
    proof (cases step)
      case (Break st1)
      with Inr "1.prems"(1) have "st' = st1"
        by (simp add: discover_branch.simps [of visitors head children c branch st])
      with Break Inr have "discover_commit visitors head children c branch st = Inr (Break st')"
        by simp
      from "1.prems"(4) [OF "1.prems"(2) this] show ?thesis .
    next
      case (Next c1 branch1 st1)
      with Inr "1.prems"(1) have run: "discover_branch visitors head children c1 branch1 st1 = Inr st'"
        by (simp add: discover_branch.simps [of visitors head children c branch st])
      from Next Inr have "discover_commit visitors head children c branch st = Inr (Next c1 branch1 st1)"
        by simp
      from "1.prems"(3) [OF "1.prems"(2) this] have "Q c1 branch1 st1" .
      from "1.IH" [OF Inr Next run this "1.prems"(3,4)] show ?thesis .
    qed
  qed
qed

lemma discover_rule:
  assumes run: "discover fuel vs head cc st = Some (Inr st')"
    and start: "R st"
    and enter: "\<And>c rest st. R st \<Longrightarrow> branch_heads st = c # rest \<Longrightarrow> Q c [] (st\<lparr>branch_heads := rest\<rparr>)"
    and "next": "\<And>c branch st c' branch' st1.
        Q c branch st \<Longrightarrow> discover_commit vs head cc c branch st = Inr (Next c' branch' st1)
        \<Longrightarrow> Q c' branch' st1"
    and break: "\<And>c branch st st1.
        Q c branch st \<Longrightarrow> discover_commit vs head cc c branch st = Inr (Break st1) \<Longrightarrow> R st1"
  shows "R st'"
  using run start
proof (induction fuel arbitrary: st)
  case 0
  then show ?case by simp
next
  case (Suc fuel)
  show ?case
  proof (cases "branch_heads st")
    case Nil
    with Suc.prems show ?thesis by simp
  next
    case (Cons c rest)
    show ?thesis
    proof (cases "discover_branch vs head cc c [] (st\<lparr>branch_heads := rest\<rparr>)")
      case (Inl e)
      with Cons Suc.prems(1) show ?thesis by simp
    next
      case (Inr st1)
      with Cons Suc.prems(1) have run: "discover fuel vs head cc st1 = Some (Inr st')"
        by simp
      have "R st1"
        by (rule discover_branch_rule [where Q = Q and R = R, OF Inr enter [OF Suc.prems(2) Cons] "next" break])
      from Suc.IH [OF run this] show ?thesis .
    qed
  qed
qed

lemma flags_ok_update:
  "flags_ok vs st \<Longrightarrow> length flags = length vs \<Longrightarrow>
   commit_coroutines st' = AList.update c flags (commit_coroutines st) \<Longrightarrow> flags_ok vs st'"
  by (simp add: flags_ok_def update_conv')

lemma flags_ok_same:
  "flags_ok vs st \<Longrightarrow> commit_coroutines st' = commit_coroutines st \<Longrightarrow> flags_ok vs st'"
  by (simp add: flags_ok_def)

lemma discover_flags_ok:
  assumes "discover fuel vs head cc st = Some (Inr st')" and "flags_ok vs st"
  shows "flags_ok vs st'"
proof (rule discover_rule [OF assms(1), where R = "flags_ok vs" and Q = "\<lambda>c branch. flags_ok vs"])
  show "flags_ok vs st" by (rule assms(2))
next
  fix c rest st
  assume "flags_ok vs st"
  then show "flags_ok vs (st\<lparr>branch_heads := rest\<rparr>)"
    by (simp add: flags_ok_def)
next
  fix c branch st c' branch' st1
  assume "flags_ok vs st" "discover_commit vs head cc c branch st = Inr (Next c' branch' st1)"
  then show "flags_ok vs st1"
    using discover_commit_NextD flags_ok_update by metis
next
  fix c branch st st1
  assume a: "flags_ok vs st" "discover_commit vs head cc c branch st = Inr (Break st1)"
  from discover_commit_BreakD [OF a(2)] a(1) show "flags_ok vs st1"
    using flags_ok_update flags_ok_same by metis
qed

lemma resolve_commit_SomeD:
  assumes "resolve_commit vs c st = Inr (Some st')"
  shows "\<exists>flags r. map_of (commit_coroutines st) c = Some flags \<and>
      send_all (zip vs flags) c (map (results_get (visited_results st)) (parents c))
        [(''commit-id'', VOid (commit_id c))] = Inr r
      \<and> (\<forall>p\<in>set (parents c). has_key (visited_results st) p \<or> \<not> has_key (commit_coroutines st) p)
      \<and> st' = st\<lparr>visited_results := AList.update c r (visited_results st),
                  resolved := resolved st @ [c]\<rparr>"
  using assms unfolding resolve_commit_def Let_def
  by (auto simp: list_all_iff split: if_splits sum.splits option.splits)

lemma update_new_keys: "k \<notin> fst ` set d \<Longrightarrow> map fst (AList.update k v d) = map fst d @ [k]"
  by (simp add: update_keys)

lemma resolve_commit_inv:
  assumes step: "resolve_commit vs c st = Inr (Some st')"
    and inv: "resolution_inv (xs @ c # ys) st"
  shows "resolution_inv (xs @ ys) st'"
proof -
  from resolve_commit_SomeD [OF step] obtain flags r where
    par: "\<forall>p\<in>set (parents c). has_key (visited_results st) p \<or> \<not> has_key (commit_coroutines st) p"
    and st': "st' = st\<lparr>visited_results := AList.update c r (visited_results st),
                  resolved := resolved st @ [c]\<rparr>"
    by blast
  from inv have
    d: "distinct (xs @ c # ys)"
    and disj: "set (xs @ c # ys) \<inter> set (resolved st) = {}"
    and all: "set (xs @ c # ys) \<union> set (resolved st) = fst ` set (commit_coroutines st)"
    and keys: "map fst (visited_results st) = resolved st"
    and dr: "distinct (resolved st)"
    and ord: "\<forall>i<length (resolved st). \<forall>p\<in>set (parents (resolved st ! i)).
           has_key (commit_coroutines st) p \<longrightarrow> p \<in> set (take i (resolved st))"
    by (simp_all add: resolution_inv_def)
  have cnew: "c \<notin> set (resolved st)"
    using disj by auto
  then have cnew': "c \<notin> fst ` set (visited_results st)"
    using keys by (metis set_map)
  have hk: "has_key (visited_results st) p \<longleftrightarrow> p \<in> set (resolved st)" for p
    using keys by (metis has_key_iff set_map)
  have 1: "distinct (xs @ ys)" using d by simp
  have 2: "set (xs @ ys) \<inter> set (resolved st') = {}"
    using d disj by (auto simp: st')
  have 3: "set (xs @ ys) \<union> set (resolved st') = fst ` set (commit_coroutines st')"
    using all by (auto simp: st')
  have 4: "map fst (visited_results st') = resolved st'"
    using keys cnew' by (simp add: st' update_new_keys)
  have 5: "distinct (resolved st')"
    using dr cnew by (simp add: st')
  have 6: "p \<in> set (take i (resolved st'))"
    if "i < length (resolved st')" "p \<in> set (parents (resolved st' ! i))"
      "has_key (commit_coroutines st') p" for i p
  proof (cases "i < length (resolved st)")
    case True
    with that ord have "p \<in> set (take i (resolved st))"
      by (simp add: st' nth_append)
    with True show ?thesis by (simp add: st')
  next
    case False
    with that(1) have i: "i = length (resolved st)" by (simp add: st')
    with that(2) have "p \<in> set (parents c)" by (simp add: st')
    with par that(3) have "p \<in> set (resolved st)" by (auto simp: hk st')
    with i show ?thesis by (simp add: st')
  qed
  show ?thesis
    unfolding resolution_inv_def using 1 2 3 4 5 6 by blast
qed

lemma resolve_commit_results:
  assumes step: "resolve_commit vs c st = Inr (Some st')"
    and inv: "resolution_inv (xs @ c # ys) st"
    and res: "results_inv I G st"
    and est: "visitors_establish vs I G"
    and fl: "flags_ok vs st"
  shows "results_inv I G st'"
proof -
  let ?V = "visited_results st"
  from resolve_commit_SomeD [OF step] obtain flags r where
    flags: "map_of (commit_coroutines st) c = Some flags" and
    send: "send_all (zip vs flags) c (map (results_get ?V) (parents c))
        [(''commit-id'', VOid (commit_id c))] = Inr r"
    and par: "\<forall>p\<in>set (parents c). has_key ?V p \<or> \<not> has_key (commit_coroutines st) p"
    and st': "st' = st\<lparr>visited_results := AList.update c r ?V,
                  resolved := resolved st @ [c]\<rparr>"
    by blast
  from inv have
    disj: "set (xs @ c # ys) \<inter> set (resolved st) = {}"
    and all: "set (xs @ c # ys) \<union> set (resolved st) = fst ` set (commit_coroutines st)"
    and keys: "map fst ?V = resolved st"
    and ord: "\<forall>i<length (resolved st). \<forall>p\<in>set (parents (resolved st ! i)).
           has_key (commit_coroutines st) p \<longrightarrow> p \<in> set (take i (resolved st))"
    by (simp_all add: resolution_inv_def)
  have cnew: "c \<notin> set (resolved st)"
    using disj by auto
  have cD: "has_key (commit_coroutines st) c"
    using all by (auto simp: has_key_iff)
  have hk: "has_key ?V p \<longleftrightarrow> p \<in> set (resolved st)" for p
    using keys by (metis has_key_iff set_map)
  have get: "results_get (AList.update c r ?V) p = results_get ?V p" if "p \<noteq> c" for p
    using that by (simp add: results_get_def update_conv')
  have pc: "p \<noteq> c" if "p \<in> set (parents c)" for p
    using that par cnew cD hk by auto
  have old: "p \<noteq> c" if "c0 \<in> set (resolved st)" "p \<in> set (parents c0)" for c0 p
  proof (cases "has_key (commit_coroutines st) p")
    case True
    from that(1) obtain i where i: "i < length (resolved st)" "resolved st ! i = c0"
      by (auto simp: in_set_conv_nth)
    with ord that(2) True have "p \<in> set (take i (resolved st))" by auto
    then have "p \<in> set (resolved st)" by (rule in_set_takeD)
    with cnew show ?thesis by auto
  next
    case False
    with cD show ?thesis by auto
  qed
  have good: "\<forall>pr\<in>set (map (results_get ?V) (parents c)). pr = [] \<or> I pr"
    using res by (auto simp: results_inv_def results_get_def split: option.splits)
  from fl flags have "length flags = length vs"
    by (simp add: flags_ok_def)
  with est send good have new: "G c r (map (results_get ?V) (parents c)) \<and> I r"
    unfolding visitors_establish_def by blast
  have same_c: "map (results_get (AList.update c r ?V)) (parents c) = map (results_get ?V) (parents c)"
    by (rule map_cong [OF refl]) (simp add: pc get)
  show ?thesis
    unfolding results_inv_def
  proof (intro allI impI)
    fix c0 r0
    assume m: "map_of (visited_results st') c0 = Some r0"
    show "I r0 \<and> G c0 r0 (map (results_get (visited_results st')) (parents c0))"
    proof (cases "c0 = c")
      case True
      with m have "r0 = r" by (simp add: st' update_conv')
      with True new show ?thesis by (simp add: st' same_c)
    next
      case False
      with m have m0: "map_of ?V c0 = Some r0" by (simp add: st' update_conv')
      then have "has_key ?V c0" by (simp add: has_key_def)
      then have "c0 \<in> set (resolved st)" by (simp add: hk)
      then have same: "map (results_get (AList.update c r ?V)) (parents c0)
          = map (results_get ?V) (parents c0)"
        by (intro map_cong [OF refl]) (simp add: old get)
      from m0 res show ?thesis by (simp add: st' results_inv_def same)
    qed
  qed
qed

lemma resolution_inv_branches [simp]:
  "resolution_inv xs (st\<lparr>branches := b\<rparr>) = resolution_inv xs st"
  by (simp add: resolution_inv_def)

lemma results_inv_branches [simp]:
  "results_inv I G (st\<lparr>branches := b\<rparr>) = results_inv I G st"
  by (simp add: results_inv_def)

lemma resolution_inv_perm:
  "resolution_inv xs st \<Longrightarrow> set ys = set xs \<Longrightarrow> distinct ys \<Longrightarrow> resolution_inv ys st"
  by (simp add: resolution_inv_def)

lemma resolve_commit_branches:
  "resolve_commit vs c st = Inr (Some st') \<Longrightarrow>
     branches st' = branches st \<and> commit_coroutines st' = commit_coroutines st"
  by (drule resolve_commit_SomeD) auto

lemma resolve_branch_inv:
  assumes "resolve_branch vs branch st = Inr st'"
    and "resolution_inv (branch @ concat (branches st)) st"
    and "results_inv I G st"
    and "visitors_establish vs I G"
    and "flags_ok vs st"
  shows "resolution_inv (concat (branches st')) st' \<and> results_inv I G st'
    \<and> commit_coroutines st' = commit_coroutines st"
  using assms
proof (induction vs branch st rule: resolve_branch.induct)
  case (1 visitors branch st)
  show ?case
  proof (cases "branch = []")
    case True
    with "1.prems"(1) have "st' = st"
      by (simp add: resolve_branch.simps [of visitors "[]" st])
    with True "1.prems"(2,3) show ?thesis by simp
  next
    case False
    then have br: "branch = butlast branch @ [last branch]" by simp
    show ?thesis
    proof (cases "resolve_commit visitors (last branch) st")
      case (Inl e)
      with False "1.prems"(1) show ?thesis
        by (simp add: resolve_branch.simps [of visitors branch st])
    next
      case (Inr out)
      show ?thesis
      proof (cases out)
        case None
        with Inr False "1.prems"(1) have st': "st' = st\<lparr>branches := branches st @ [branch]\<rparr>"
          by (simp add: resolve_branch.simps [of visitors branch st])
        from "1.prems"(2) have "distinct (branch @ concat (branches st))"
          by (simp add: resolution_inv_def)
        then have "distinct (concat (branches st) @ branch)"
          by auto
        with "1.prems"(2) have "resolution_inv (concat (branches st) @ branch) st"
          by (auto intro: resolution_inv_perm)
        with "1.prems"(3) show ?thesis by (simp add: st')
      next
        case (Some st1)
        with Inr False "1.prems"(1) have run: "resolve_branch visitors (butlast branch) st1 = Inr st'"
          by (simp add: resolve_branch.simps [of visitors branch st])
        from Inr Some have step: "resolve_commit visitors (last branch) st = Inr (Some st1)"
          by simp
        from "1.prems"(2) br
        have inv: "resolution_inv (butlast branch @ last branch # concat (branches st)) st"
          by (metis append.assoc append_Cons append_Nil)
        note b = resolve_commit_branches [OF step]
        from resolve_commit_inv [OF step inv] b
        have inv1: "resolution_inv (butlast branch @ concat (branches st1)) st1" by simp
        from resolve_commit_results [OF step inv "1.prems"(3,4,5)]
        have res1: "results_inv I G st1" .
        from "1.prems"(5) b have fl1: "flags_ok visitors st1"
          by (simp add: flags_ok_def)
        from "1.IH" [OF False Inr Some run inv1 res1 "1.prems"(4) fl1] b show ?thesis
          by simp
      qed
    qed
  qed
qed

lemma resolve_inv:
  assumes "resolve fuel vs st = Some (Inr st')"
    and "resolution_inv (concat (branches st)) st"
    and "results_inv I G st"
    and "visitors_establish vs I G"
    and "flags_ok vs st"
  shows "resolution_inv [] st' \<and> results_inv I G st'
    \<and> commit_coroutines st' = commit_coroutines st"
  using assms
proof (induction fuel arbitrary: st)
  case 0
  then show ?case by simp
next
  case (Suc fuel)
  show ?case
  proof (cases "branches st")
    case Nil
    with Suc.prems show ?thesis by simp
  next
    case (Cons branch rest)
    show ?thesis
    proof (cases "resolve_branch vs branch (st\<lparr>branches := rest\<rparr>)")
      case (Inl e)
      with Cons Suc.prems(1) show ?thesis by simp
    next
      case (Inr st1)
      with Cons Suc.prems(1) have run: "resolve fuel vs st1 = Some (Inr st')"
        by simp
      from Suc.prems(2) Cons
      have "resolution_inv (branch @ concat (branches (st\<lparr>branches := rest\<rparr>))) (st\<lparr>branches := rest\<rparr>)"
        by simp
      moreover from Suc.prems(5) have "flags_ok vs (st\<lparr>branches := rest\<rparr>)"
        by (simp add: flags_ok_def)
      ultimately have inv1: "resolution_inv (concat (branches st1)) st1" "results_inv I G st1"
        "commit_coroutines st1 = commit_coroutines st"
        using resolve_branch_inv [OF Inr _ _ Suc.prems(4)] Suc.prems(3)
        by simp_all
      from Suc.prems(5) inv1(3) have "flags_ok vs st1"
        by (simp add: flags_ok_def)
      from Suc.IH [OF run inv1(1,2) Suc.prems(4) this] inv1(3) show ?thesis by simp
    qed
  qed
qed

lemma run_passes_inv:
  assumes "run_passes fuel vs head = Some (Inr st)"
    and "visitors_establish vs I G"
  shows "resolution_inv [] st \<and> results_inv I G st"
proof -
  from assms(1) obtain st0 where
    d: "discover fuel vs head (commit_children (walk head)) (initial_state head) = Some (Inr st0)"
    and r: "resolve fuel vs st0 = Some (Inr st)"
    by (auto simp: run_passes_def split: option.splits sum.splits)
  from discover_inv [OF d] have
    0: "distinct (concat (branches st0))"
      "set (concat (branches st0)) = fst ` set (commit_coroutines st0)"
      "visited_results st0 = []" "resolved st0 = []"
    by (simp_all add: initial_state_def)
  then have 1: "resolution_inv (concat (branches st0)) st0"
    by (simp add: resolution_inv_def)
  from 0 have 2: "results_inv I G st0"
    by (simp add: results_inv_def)
  have "flags_ok vs (initial_state head)"
    by (simp add: flags_ok_def initial_state_def)
  from discover_flags_ok [OF d this] have 3: "flags_ok vs st0" .
  from resolve_inv [OF r 1 2 assms(2) 3] show ?thesis by simp
qed

lemma visitors_establish_trivial: "visitors_establish vs (\<lambda>r. True) (\<lambda>c r prs. True)"
  by (simp add: visitors_establish_def)

text \<open>
  C8 (as amended): when the walker returns, every commit that was visited in the first
  pass has had its result computed exactly once (the keys of the result mapping are the
  resolved commits, none twice, and they are the visited commits), and phase 2 of a
  commit ran only after phase 2 of each of its parents that was visited.
\<close>

theorem resolution_order:
  assumes "run_passes fuel vs head = Some (Inr st)"
  shows "distinct (resolved st)
    \<and> map fst (visited_results st) = resolved st
    \<and> set (resolved st) = fst ` set (commit_coroutines st)
    \<and> (\<forall>i<length (resolved st). \<forall>p\<in>set (parents (resolved st ! i)).
          has_key (commit_coroutines st) p \<longrightarrow> p \<in> set (take i (resolved st)))"
  using run_passes_inv [OF assms visitors_establish_trivial]
  by (simp add: resolution_inv_def)

lemma map_result_InrD:
  assumes "map_option (map_sum id f) x = Some (Inr y)"
  shows "\<exists>st. x = Some (Inr st) \<and> f st = y"
proof (cases x)
  case None
  with assms show ?thesis by simp
next
  case (Some a)
  with assms show ?thesis by (cases a) auto
qed

theorem resolution_order_witness:
  "\<exists>st. run_passes 10 example_visitors ex_merge = Some (Inr st)
     \<and> resolved st = [ex_root, ex_right, ex_left, ex_merge]
     \<and> map fst (visited_results st) = resolved st
     \<and> set (resolved st) = fst ` set (commit_coroutines st)"
proof -
  have "map_option (map_sum id resolved) (run_passes 10 example_visitors ex_merge)
      = Some (Inr [ex_root, ex_right, ex_left, ex_merge])"
    by code_simp
  from map_result_InrD [OF this]
  obtain st where st: "run_passes 10 example_visitors ex_merge = Some (Inr st)"
    "resolved st = [ex_root, ex_right, ex_left, ex_merge]"
    by (elim exE conjE)
  from resolution_order [OF st(1)] st show ?thesis
    by simp
qed

text \<open>
  C8 as stated fails for a reachable commit that the first pass never visits: no visitor
  of \<open>ex_release\<close> wants to continue, so its parent \<open>ex_root\<close> gets no result.
\<close>

theorem resolution_order_counterexample:
  "ex_root \<in> set (walk ex_release)
   \<and> run_on_history 10 example_visitors ex_release =
       Some (Inr [(ex_release,
                   [(''commit-id'', VOid 9), (''epoch-version'', VStr ''2.0''),
                    (''release-number'', VInt 1), (''release-complete'', VStr ''1''),
                    (''changelog'', VChangelog [Entry 9 ''* new version'' None])])])"
  by code_simp

lemma release_number_phase2_keeps:
  assumes "release_number_phase2 P c f r prs = Inr r'"
    and "k \<noteq> ''epoch-version''" "k \<noteq> ''release-number''" "k \<noteq> ''release-complete''"
  shows "map_of r' k = map_of r k"
  using assms
  by (auto simp: release_number_phase2_def Let_def update_conv' split: sum.splits)

lemma changelog_phase2_keeps:
  assumes "changelog_phase2 P c f r prs = Inr r'" and "k \<noteq> ''changelog''"
  shows "map_of r' k = map_of r k"
  using assms unfolding changelog_phase2_def Let_def
  by (auto simp: update_conv' split: sum.splits if_splits pyvalue.splits)

lemma send_all_keeps:
  assumes "send_all vfs c prs r = Inr r'"
    and "\<And>v f r r'. (v, f) \<in> set vfs \<Longrightarrow> phase2 v c f r prs = Inr r' \<Longrightarrow> map_of r' k = map_of r k"
  shows "map_of r' k = map_of r k"
  using assms
proof (induction vfs arbitrary: r)
  case Nil
  then show ?case by simp
next
  case (Cons vf vfs)
  obtain v f where vf: "vf = (v, f)" by (cases vf)
  from Cons.prems(1) vf obtain r1 where
    r1: "phase2 v c f r prs = Inr r1" and rest: "send_all vfs c prs r1 = Inr r'"
    by (auto split: sum.splits)
  from Cons.prems(2) [of v f r r1] vf r1 have "map_of r1 k = map_of r k" by simp
  moreover have "map_of r' k = map_of r1 k"
  proof (rule Cons.IH [OF rest])
    fix v f r r'
    assume "(v, f) \<in> set vfs" "phase2 v c f r prs = Inr r'"
    then show "map_of r' k = map_of r k"
      using Cons.prems(2) [of v f r r'] by simp
  qed
  ultimately show ?case by simp
qed

text \<open>
  C10: in every result that the walker returns for the built-in visitors, the key
  \<open>commit-id\<close> holds the id of the result's own commit: the walker seeds it, and phase 2
  of either visitor leaves it as it is.
\<close>

theorem commit_id_kept:
  assumes "run_on_history fuel vs head = Some (Inr results)"
    and "set vs \<subseteq> {release_number_visitor P, changelog_visitor P}"
    and "map_of results c = Some r"
  shows "map_of r ''commit-id'' = Some (VOid (commit_id c))
    \<and> (\<forall>v\<in>set vs. \<forall>c' flag r0 prs r1.
          phase2 v c' flag r0 prs = Inr r1 \<longrightarrow> map_of r1 ''commit-id'' = map_of r0 ''commit-id'')"
proof -
  have keep: "map_of r1 ''commit-id'' = map_of r0 ''commit-id''"
    if "v \<in> set vs" "phase2 v c' flag r0 prs = Inr r1" for v c' flag r0 prs r1
  proof -
    from that(1) assms(2) consider "v = release_number_visitor P" | "v = changelog_visitor P"
      by auto
    then show ?thesis
    proof cases
      case 1
      with that(2) show ?thesis
        by (simp add: release_number_visitor_def release_number_phase2_keeps)
    next
      case 2
      with that(2) show ?thesis
        by (simp add: changelog_visitor_def changelog_phase2_keeps)
    qed
  qed
  have est: "visitors_establish vs (\<lambda>r. True)
      (\<lambda>c r prs. map_of r ''commit-id'' = Some (VOid (commit_id c)))"
    unfolding visitors_establish_def
  proof (intro allI impI conjI TrueI)
    fix c flags prs r
    assume s: "send_all (zip vs flags) c prs [(''commit-id'', VOid (commit_id c))] = Inr r"
    have "map_of r ''commit-id'' = map_of [(''commit-id'', VOid (commit_id c))] ''commit-id''"
    proof (rule send_all_keeps [OF s])
      fix v f r0 r1
      assume "(v, f) \<in> set (zip vs flags)" "phase2 v c f r0 prs = Inr r1"
      then show "map_of r1 ''commit-id'' = map_of r0 ''commit-id''"
        using keep set_zip_leftD by metis
    qed
    then show "map_of r ''commit-id'' = Some (VOid (commit_id c))" by simp
  qed
  from assms(1) obtain st where st: "run_passes fuel vs head = Some (Inr st)"
    and res: "results = visited_results st"
    by (auto simp: run_on_history_def split: option.splits sum.splits)
  from run_passes_inv [OF st est] have "results_inv (\<lambda>r. True)
      (\<lambda>c r prs. map_of r ''commit-id'' = Some (VOid (commit_id c))) st" by simp
  with assms(3) res have "map_of r ''commit-id'' = Some (VOid (commit_id c))"
    by (simp add: results_inv_def)
  with keep show ?thesis by blast
qed

theorem commit_id_kept_witness:
  "run_on_history 10 example_visitors ex_left =
     Some (Inr [(ex_root, ex_root_result), (ex_left, ex_left_result)])
   \<and> map_of [(ex_root, ex_root_result), (ex_left, ex_left_result)] ex_left = Some ex_left_result
   \<and> map_of ex_left_result ''commit-id'' = Some (VOid (commit_id ex_left))"
proof -
  have run: "run_on_history 10 example_visitors ex_left =
     Some (Inr [(ex_root, ex_root_result), (ex_left, ex_left_result)])"
    by code_simp
  have sub: "set example_visitors
      \<subseteq> {release_number_visitor example_processor, changelog_visitor example_processor}"
    by (simp add: example_visitors_def)
  have look: "map_of [(ex_root, ex_root_result), (ex_left, ex_left_result)] ex_left
      = Some ex_left_result"
    by code_simp
  from commit_id_kept [OF run sub look] run look show ?thesis
    by simp
qed

lemma parent_release_number_ok:
  assumes "pr = [] \<or> release_fields pr"
  shows "parent_release_number ev pr = Inr (VInt (contribution ev pr)) \<and> 0 \<le> contribution ev pr"
  using assms
  by (auto simp: parent_release_number_def contribution_def release_fields_def getitem_def)

lemma parent_release_numbers_ok:
  assumes "\<forall>pr\<in>set prs. pr = [] \<or> release_fields pr"
  shows "parent_release_numbers ev prs = Inr (map (\<lambda>pr. VInt (contribution ev pr)) prs)"
  using assms
proof (induction prs)
  case Nil
  then show ?case by simp
next
  case (Cons pr prs)
  then show ?case
    by (simp add: parent_release_number_ok)
qed

lemma py_max_Max:
  assumes "\<forall>x\<in>set xs. 0 \<le> x"
  shows "py_max xs 0 = Max (insert 0 (set xs))"
proof (cases xs)
  case Nil
  then show ?thesis by (simp add: py_max_def)
next
  case (Cons y ys)
  then have "py_max xs 0 = Max (set xs)"
    using Max.set_eq_fold [of y ys] by (simp add: py_max_def)
  moreover from Cons have "Max (set xs) \<in> set xs"
    by (intro Max_in) simp_all
  with assms have "0 \<le> Max (set xs)" by blast
  with Cons have "Max (insert 0 (set xs)) = Max (set xs)"
    by (subst Max_insert) (simp_all add: max_def)
  ultimately show ?thesis by simp
qed

lemma release_number_of_ok:
  assumes "\<forall>pr\<in>set prs. pr = [] \<or> release_fields pr"
  shows "release_number_of ev prs =
     Inr (1 + Max (insert 0 {m. \<exists>pr\<in>set prs. pr \<noteq> []
            \<and> map_of pr ''epoch-version'' = Some (str_opt_value ev)
            \<and> map_of pr ''release-number'' = Some (VInt m)}))
     \<and> 0 \<le> Max (insert 0 {m. \<exists>pr\<in>set prs. pr \<noteq> []
            \<and> map_of pr ''epoch-version'' = Some (str_opt_value ev)
            \<and> map_of pr ''release-number'' = Some (VInt m)})"
proof -
  let ?S = "{m. \<exists>pr\<in>set prs. pr \<noteq> []
            \<and> map_of pr ''epoch-version'' = Some (str_opt_value ev)
            \<and> map_of pr ''release-number'' = Some (VInt m)}"
  have nonneg: "\<forall>x\<in>set (map (contribution ev) prs). 0 \<le> x"
    using assms parent_release_number_ok by auto
  have "insert 0 (set (map (contribution ev) prs)) = insert 0 ?S"
  proof (intro set_eqI iffI)
    fix x assume "x \<in> insert 0 (set (map (contribution ev) prs))"
    then consider "x = 0" | pr where "pr \<in> set prs" "x = contribution ev pr" by auto
    then show "x \<in> insert 0 ?S"
    proof cases
      case 1
      then show ?thesis by simp
    next
      case 2
      with assms have "pr = [] \<or> release_fields pr" by simp
      with 2 show ?thesis
        by (auto simp: contribution_def release_fields_def)
    qed
  next
    fix x assume "x \<in> insert 0 ?S"
    then consider "x = 0" | pr where "pr \<in> set prs" "pr \<noteq> []"
        "map_of pr ''epoch-version'' = Some (str_opt_value ev)"
        "map_of pr ''release-number'' = Some (VInt x)" by auto
    then show "x \<in> insert 0 (set (map (contribution ev) prs))"
    proof cases
      case 1
      then show ?thesis by simp
    next
      case 2
      then have "contribution ev pr = x" by (simp add: contribution_def)
      with 2(1) show ?thesis by force
    qed
  qed
  then have eq: "insert 0 ?S = insert 0 (set (map (contribution ev) prs))" by simp
  have "0 \<le> Max (insert 0 (set (map (contribution ev) prs)))"
    by (rule Max_ge) simp_all
  with eq have ge: "0 \<le> Max (insert 0 ?S)" by simp
  from py_max_Max [OF nonneg] eq
  have "py_max (map (contribution ev) prs) 0 = Max (insert 0 ?S)"
    by simp
  then have "release_number_of ev prs = Inr (1 + Max (insert 0 ?S))"
    by (simp add: release_number_of_def parent_release_numbers_ok [OF assms] list_all_iff
        comp_def)
  with ge show ?thesis by simp
qed

lemma release_number_phase2_fields:
  assumes "release_number_phase2 P c f r0 prs = Inr r1"
    and "\<forall>pr\<in>set prs. pr = [] \<or> release_fields pr"
  shows "\<exists>n ev. map_of r1 ''release-number'' = Some (VInt n)
     \<and> map_of r1 ''epoch-version'' = Some ev
     \<and> n = 1 + Max (insert 0 {m. \<exists>pr\<in>set prs. pr \<noteq> []
            \<and> map_of pr ''epoch-version'' = Some ev
            \<and> map_of pr ''release-number'' = Some (VInt m)})
     \<and> 1 \<le> n"
proof -
  from assms(1) obtain vf where vf: "get_rpmverflags_for_commit P c = Inr vf"
    by (auto simp: release_number_phase2_def split: sum.splits)
  let ?ev = "rn_epoch_version (release_number_locals vf)"
  note ok = release_number_of_ok [OF assms(2), of ?ev]
  from assms(1) vf ok have
    "map_of r1 ''release-number'' = Some (VInt (1 + Max (insert 0 {m. \<exists>pr\<in>set prs. pr \<noteq> []
            \<and> map_of pr ''epoch-version'' = Some (str_opt_value ?ev)
            \<and> map_of pr ''release-number'' = Some (VInt m)})))"
    and "map_of r1 ''epoch-version'' = Some (str_opt_value ?ev)"
    by (auto simp: release_number_phase2_def Let_def update_conv')
  with ok show ?thesis by simp
qed

lemma release_number_establish:
  assumes "set rest \<subseteq> {changelog_visitor P}"
  shows "visitors_establish (release_number_visitor P # rest) release_fields
     (\<lambda>c r prs. \<exists>n. map_of r ''release-number'' = Some (VInt n)
        \<and> n = 1 + Max (insert 0 {m. \<exists>pr\<in>set prs. pr \<noteq> []
              \<and> map_of pr ''epoch-version'' = map_of r ''epoch-version''
              \<and> map_of pr ''release-number'' = Some (VInt m)}))"
  unfolding visitors_establish_def
proof (intro allI impI)
  fix c flags prs r
  assume len: "length flags = length (release_number_visitor P # rest)"
    and send: "send_all (zip (release_number_visitor P # rest) flags) c prs
        [(''commit-id'', VOid (commit_id c))] = Inr r"
    and good: "\<forall>pr\<in>set prs. pr = [] \<or> release_fields pr"
  from len obtain f fs where flags: "flags = f # fs" by (cases flags) auto
  with send obtain r1 where
    r1: "release_number_phase2 P c f [(''commit-id'', VOid (commit_id c))] prs = Inr r1"
    and rest: "send_all (zip rest fs) c prs r1 = Inr r"
    by (auto simp: release_number_visitor_def split: sum.splits)
  have keep: "map_of r k = map_of r1 k" if "k \<noteq> ''changelog''" for k
  proof (rule send_all_keeps [OF rest])
    fix v f' ra rb
    assume "(v, f') \<in> set (zip rest fs)" "phase2 v c f' ra prs = Inr rb"
    moreover then have "v = changelog_visitor P"
      using assms set_zip_leftD by fastforce
    ultimately show "map_of rb k = map_of ra k"
      using that by (simp add: changelog_visitor_def changelog_phase2_keeps)
  qed
  from release_number_phase2_fields [OF r1 good] obtain n ev where
    f: "map_of r1 ''release-number'' = Some (VInt n)" "map_of r1 ''epoch-version'' = Some ev"
      "n = 1 + Max (insert 0 {m. \<exists>pr\<in>set prs. pr \<noteq> []
            \<and> map_of pr ''epoch-version'' = Some ev
            \<and> map_of pr ''release-number'' = Some (VInt m)})" "1 \<le> n"
    by blast
  from f(1,2) have g: "map_of r ''release-number'' = Some (VInt n)"
    "map_of r ''epoch-version'' = Some ev"
    by (simp_all add: keep)
  then have "r \<noteq> []" by auto
  with g f(4) have "release_fields r"
    by (auto simp: release_fields_def)
  with g f(3) show "(\<exists>n. map_of r ''release-number'' = Some (VInt n)
        \<and> n = 1 + Max (insert 0 {m. \<exists>pr\<in>set prs. pr \<noteq> []
              \<and> map_of pr ''epoch-version'' = map_of r ''epoch-version''
              \<and> map_of pr ''release-number'' = Some (VInt m)})) \<and> release_fields r"
    by simp
qed

lemma discover_commit_cases:
  assumes "discover_commit vs head cc c branch st = Inr step"
  obtains
    (seen) "has_key (commit_coroutines st) c"
      "step = Break (st\<lparr>branches := branches st @ [branch]\<rparr>)"
  | (deferred) "\<not> has_key (commit_coroutines st) c"
      "step = Break (st\<lparr>branch_heads := branch_heads st @ [c],
                       branches := (if branch = [] then branches st
                                    else branches st @ [branch])\<rparr>)"
  | (stop) flags mcs where "\<not> has_key (commit_coroutines st) c"
      "length flags = length vs"
      "sequence (map (\<lambda>(v, flag). phase1 v c flag) (zip vs flags)) = Inr mcs"
      "\<not> list_ex (\<lambda>b. b) mcs \<or> parents c = []"
      "step = Break (st\<lparr>commit_coroutines := AList.update c flags (commit_coroutines st),
                         commit_coroutines_must_continue :=
                           AList.update c mcs (commit_coroutines_must_continue st),
                         branches := branches st @ [branch @ [c]]\<rparr>)"
  | (continue) flags mcs where "\<not> has_key (commit_coroutines st) c"
      "length flags = length vs"
      "sequence (map (\<lambda>(v, flag). phase1 v c flag) (zip vs flags)) = Inr mcs"
      "list_ex (\<lambda>b. b) mcs" "parents c \<noteq> []"
      "step = Next (hd (parents c)) (branch @ [c])
                (st\<lparr>commit_coroutines := AList.update c flags (commit_coroutines st),
                    commit_coroutines_must_continue :=
                      AList.update c mcs (commit_coroutines_must_continue st),
                    branch_heads :=
                      branch_heads st
                        @ (if length (parents c) > 1
                           then filter (\<lambda>p. \<not> has_key (AList.update c flags (commit_coroutines st)) p)
                                  (tl (parents c))
                           else [])\<rparr>)"
  using assms unfolding discover_commit_def Let_def
  by (auto split: if_splits sum.splits option.splits
      dest: children_visitors_must_continue_length)

lemma has_key_update: "has_key (AList.update k v d) k' \<longleftrightarrow> k' = k \<or> has_key d k'"
  by (auto simp: has_key_def update_conv')

lemma tail_parent:
  "p \<in> set ps \<Longrightarrow> ps \<noteq> [] \<Longrightarrow> p \<noteq> hd ps \<Longrightarrow> p \<in> set (tl ps) \<and> 1 < length ps"
  by (cases ps; cases "tl ps") auto

lemma discover_commit_queued_Next:
  assumes step: "discover_commit vs head cc c branch st = Inr (Next c' branch' st')"
    and q: "parents_queued (Some c) st"
  shows "parents_queued (Some c') st'"
  using step
proof (cases rule: discover_commit_cases)
  case (continue flags mcs)
  then have c': "c' = hd (parents c)"
    and st': "st' = st\<lparr>commit_coroutines := AList.update c flags (commit_coroutines st),
                    commit_coroutines_must_continue :=
                      AList.update c mcs (commit_coroutines_must_continue st),
                    branch_heads :=
                      branch_heads st
                        @ (if length (parents c) > 1
                           then filter (\<lambda>p. \<not> has_key (AList.update c flags (commit_coroutines st)) p)
                                  (tl (parents c))
                           else [])\<rparr>"
    by simp_all
  show ?thesis
    unfolding parents_queued_def
  proof (intro allI impI)
    fix c0 p
    assume k: "has_key (commit_coroutines st') c0" and w: "wants st' c0"
      and p: "p \<in> set (parents c0)"
    show "has_key (commit_coroutines st') p \<or> p \<in> set (branch_heads st') \<or> Some c' = Some p"
    proof (cases "c0 = c")
      case True
      show ?thesis
      proof (cases "p = hd (parents c)")
        case True
        with c' show ?thesis by simp
      next
        case False
        with p \<open>c0 = c\<close> continue(5) tail_parent [of p "parents c"]
        have "p \<in> set (tl (parents c))" "1 < length (parents c)" by simp_all
        then show ?thesis by (auto simp: st')
      qed
    next
      case False
      with k w have "has_key (commit_coroutines st) c0" "wants st c0"
        by (simp_all add: st' has_key_update wants_def update_conv')
      with q p have "has_key (commit_coroutines st) p \<or> p \<in> set (branch_heads st) \<or> p = c"
        unfolding parents_queued_def by blast
      then show ?thesis by (auto simp: st' has_key_update)
    qed
  qed
qed simp_all

lemma discover_commit_queued_Break:
  assumes step: "discover_commit vs head cc c branch st = Inr (Break st')"
    and q: "parents_queued (Some c) st"
  shows "parents_queued None st'"
  using step
proof (cases rule: discover_commit_cases)
  case seen
  with q show ?thesis
    by (auto simp: parents_queued_def wants_def)
next
  case deferred
  with q show ?thesis
    by (auto simp: parents_queued_def wants_def)
next
  case (stop flags mcs)
  then have st': "st' = st\<lparr>commit_coroutines := AList.update c flags (commit_coroutines st),
                         commit_coroutines_must_continue :=
                           AList.update c mcs (commit_coroutines_must_continue st),
                         branches := branches st @ [branch @ [c]]\<rparr>"
    by simp
  show ?thesis
    unfolding parents_queued_def
  proof (intro allI impI)
    fix c0 p
    assume k: "has_key (commit_coroutines st') c0" and w: "wants st' c0"
      and p: "p \<in> set (parents c0)"
    show "has_key (commit_coroutines st') p \<or> p \<in> set (branch_heads st') \<or> None = Some p"
    proof (cases "c0 = c")
      case True
      with w p stop(4) show ?thesis by (auto simp: st' wants_def update_conv')
    next
      case False
      with k w have "has_key (commit_coroutines st) c0" "wants st c0"
        by (simp_all add: st' has_key_update wants_def update_conv')
      with q p have "has_key (commit_coroutines st) p \<or> p \<in> set (branch_heads st) \<or> p = c"
        unfolding parents_queued_def by blast
      then show ?thesis by (auto simp: st' has_key_update)
    qed
  qed
qed simp_all

lemma discover_commit_recorded:
  assumes step: "discover_commit vs head cc c branch st = Inr step"
    and r: "phase1_recorded vs st"
  shows "case step of Break st' \<Rightarrow> phase1_recorded vs st'
                    | Next c' branch' st' \<Rightarrow> phase1_recorded vs st'"
  using step
proof (cases rule: discover_commit_cases)
  case seen
  with r show ?thesis by (simp add: phase1_recorded_def)
next
  case deferred
  with r show ?thesis by (simp add: phase1_recorded_def)
next
  case (stop flags mcs)
  with r show ?thesis by (auto simp: phase1_recorded_def update_conv')
next
  case (continue flags mcs)
  with r show ?thesis by (auto simp: phase1_recorded_def update_conv')
qed

lemma discover_heads_empty:
  "discover fuel vs head cc st = Some (Inr st') \<Longrightarrow> branch_heads st' = []"
proof (induction fuel arbitrary: st)
  case 0
  then show ?case by simp
next
  case (Suc fuel)
  show ?case
  proof (cases "branch_heads st")
    case Nil
    with Suc.prems show ?thesis by simp
  next
    case (Cons c rest)
    show ?thesis
    proof (cases "discover_branch vs head cc c [] (st\<lparr>branch_heads := rest\<rparr>)")
      case (Inl e)
      with Cons Suc.prems show ?thesis by simp
    next
      case (Inr st1)
      with Cons Suc.prems have "discover fuel vs head cc st1 = Some (Inr st')" by simp
      then show ?thesis by (rule Suc.IH)
    qed
  qed
qed

lemma discover_queued:
  assumes "discover fuel vs head cc st = Some (Inr st')"
    and "parents_queued None st" and "phase1_recorded vs st"
  shows "parents_queued None st' \<and> phase1_recorded vs st'"
proof (rule discover_rule [OF assms(1),
      where Q = "\<lambda>c branch st. parents_queued (Some c) st \<and> phase1_recorded vs st"
        and R = "\<lambda>st. parents_queued None st \<and> phase1_recorded vs st"])
  show "parents_queued None st \<and> phase1_recorded vs st"
    using assms(2,3) by simp
next
  fix c rest st
  assume "parents_queued None st \<and> phase1_recorded vs st" "branch_heads st = c # rest"
  then show "parents_queued (Some c) (st\<lparr>branch_heads := rest\<rparr>)
      \<and> phase1_recorded vs (st\<lparr>branch_heads := rest\<rparr>)"
    by (auto simp: parents_queued_def phase1_recorded_def wants_def)
next
  fix c branch st c' branch' st1
  assume a: "parents_queued (Some c) st \<and> phase1_recorded vs st"
    "discover_commit vs head cc c branch st = Inr (Next c' branch' st1)"
  from discover_commit_queued_Next [OF a(2)] discover_commit_recorded [OF a(2)] a(1)
  show "parents_queued (Some c') st1 \<and> phase1_recorded vs st1"
    by simp
next
  fix c branch st st1
  assume a: "parents_queued (Some c) st \<and> phase1_recorded vs st"
    "discover_commit vs head cc c branch st = Inr (Break st1)"
  from discover_commit_queued_Break [OF a(2)] discover_commit_recorded [OF a(2)] a(1)
  show "parents_queued None st1 \<and> phase1_recorded vs st1"
    by simp
qed

lemma resolve_commit_frame:
  "resolve_commit vs c st = Inr (Some st') \<Longrightarrow>
     commit_coroutines_must_continue st' = commit_coroutines_must_continue st
     \<and> branch_heads st' = branch_heads st"
  by (drule resolve_commit_SomeD) auto

lemma resolve_branch_frame:
  assumes "resolve_branch vs branch st = Inr st'"
  shows "commit_coroutines_must_continue st' = commit_coroutines_must_continue st
     \<and> branch_heads st' = branch_heads st"
  using assms
proof (induction vs branch st rule: resolve_branch.induct)
  case (1 visitors branch st)
  show ?case
  proof (cases "branch = []")
    case True
    with "1.prems"(1) have "st' = st"
      by (simp add: resolve_branch.simps [of visitors "[]" st])
    then show ?thesis by simp
  next
    case False
    show ?thesis
    proof (cases "resolve_commit visitors (last branch) st")
      case (Inl e)
      with False "1.prems"(1) show ?thesis
        by (simp add: resolve_branch.simps [of visitors branch st])
    next
      case (Inr out)
      show ?thesis
      proof (cases out)
        case None
        with Inr False "1.prems"(1) have "st' = st\<lparr>branches := branches st @ [branch]\<rparr>"
          by (simp add: resolve_branch.simps [of visitors branch st])
        then show ?thesis by simp
      next
        case (Some st1)
        with Inr False "1.prems"(1) have run: "resolve_branch visitors (butlast branch) st1 = Inr st'"
          by (simp add: resolve_branch.simps [of visitors branch st])
        from Inr Some have "resolve_commit visitors (last branch) st = Inr (Some st1)" by simp
        from resolve_commit_frame [OF this] "1.IH" [OF False Inr Some run] show ?thesis
          by simp
      qed
    qed
  qed
qed

lemma resolve_frame:
  assumes "resolve fuel vs st = Some (Inr st')"
  shows "commit_coroutines_must_continue st' = commit_coroutines_must_continue st
     \<and> branch_heads st' = branch_heads st"
  using assms
proof (induction fuel arbitrary: st)
  case 0
  then show ?case by simp
next
  case (Suc fuel)
  show ?case
  proof (cases "branches st")
    case Nil
    with Suc.prems show ?thesis by simp
  next
    case (Cons branch rest)
    show ?thesis
    proof (cases "resolve_branch vs branch (st\<lparr>branches := rest\<rparr>)")
      case (Inl e)
      with Cons Suc.prems show ?thesis by simp
    next
      case (Inr st1)
      with Cons Suc.prems have "resolve fuel vs st1 = Some (Inr st')" by simp
      from Suc.IH [OF this] resolve_branch_frame [OF Inr] show ?thesis by simp
    qed
  qed
qed

lemma discover_keys_same:
  assumes "discover fuel vs head cc st = Some (Inr st')"
    and "fst ` set (commit_coroutines st) = fst ` set (commit_coroutines_must_continue st)"
  shows "fst ` set (commit_coroutines st') = fst ` set (commit_coroutines_must_continue st')"
proof (rule discover_rule [OF assms(1),
      where Q = "\<lambda>c branch st. fst ` set (commit_coroutines st)
          = fst ` set (commit_coroutines_must_continue st)"
        and R = "\<lambda>st. fst ` set (commit_coroutines st)
          = fst ` set (commit_coroutines_must_continue st)"])
  show "fst ` set (commit_coroutines st) = fst ` set (commit_coroutines_must_continue st)"
    by (rule assms(2))
next
  fix c rest st
  assume "fst ` set (commit_coroutines st) = fst ` set (commit_coroutines_must_continue st)"
  then show "fst ` set (commit_coroutines (st\<lparr>branch_heads := rest\<rparr>))
      = fst ` set (commit_coroutines_must_continue (st\<lparr>branch_heads := rest\<rparr>))"
    by simp
next
  fix c branch st c' branch' st1
  assume a: "fst ` set (commit_coroutines st) = fst ` set (commit_coroutines_must_continue st)"
    "discover_commit vs head cc c branch st = Inr (Next c' branch' st1)"
  from a(2) show "fst ` set (commit_coroutines st1)
      = fst ` set (commit_coroutines_must_continue st1)"
    by (cases rule: discover_commit_cases) (simp_all add: keys_update a(1))
next
  fix c branch st st1
  assume a: "fst ` set (commit_coroutines st) = fst ` set (commit_coroutines_must_continue st)"
    "discover_commit vs head cc c branch st = Inr (Break st1)"
  from a(2) show "fst ` set (commit_coroutines st1)
      = fst ` set (commit_coroutines_must_continue st1)"
    by (cases rule: discover_commit_cases) (simp_all add: keys_update a(1))
qed

text \<open>
  When the walker returns, the recorded flags of every commit with a result are those
  that phase 1 yielded, and every parent of a commit with a result at which some visitor
  wanted to continue has a result too.
\<close>

lemma run_passes_parents_resolved:
  assumes "run_passes fuel vs head = Some (Inr st)"
  shows "phase1_recorded vs st
     \<and> (\<forall>c. has_key (visited_results st) c \<longrightarrow>
           has_key (commit_coroutines_must_continue st) c)
     \<and> (\<forall>c p. has_key (visited_results st) c \<longrightarrow> wants st c \<longrightarrow> p \<in> set (parents c)
           \<longrightarrow> has_key (visited_results st) p)"
proof -
  from assms obtain st0 where
    d: "discover fuel vs head (commit_children (walk head)) (initial_state head) = Some (Inr st0)"
    and r: "resolve fuel vs st0 = Some (Inr st)"
    by (auto simp: run_passes_def split: option.splits sum.splits)
  have "parents_queued None (initial_state head)" "phase1_recorded vs (initial_state head)"
    by (simp_all add: parents_queued_def phase1_recorded_def initial_state_def has_key_def)
  from discover_queued [OF d this] have q0: "parents_queued None st0" "phase1_recorded vs st0"
    by simp_all
  from discover_heads_empty [OF d] have h0: "branch_heads st0 = []" .
  from discover_keys_same [OF d] have k0: "fst ` set (commit_coroutines st0)
      = fst ` set (commit_coroutines_must_continue st0)"
    by (simp add: initial_state_def)
  from discover_inv [OF d] have
    0: "distinct (concat (branches st0))"
      "set (concat (branches st0)) = fst ` set (commit_coroutines st0)"
      "visited_results st0 = []" "resolved st0 = []"
    by (simp_all add: initial_state_def)
  then have 1: "resolution_inv (concat (branches st0)) st0"
    by (simp add: resolution_inv_def)
  from 0 have 2: "results_inv (\<lambda>r. True) (\<lambda>c r prs. True) st0"
    by (simp add: results_inv_def)
  have "flags_ok vs (initial_state head)"
    by (simp add: flags_ok_def initial_state_def)
  from discover_flags_ok [OF d this] have 3: "flags_ok vs st0" .
  from resolve_inv [OF r 1 2 visitors_establish_trivial 3] have
    inv: "resolution_inv [] st" and cc: "commit_coroutines st = commit_coroutines st0"
    by simp_all
  from resolve_frame [OF r] have
    mc: "commit_coroutines_must_continue st = commit_coroutines_must_continue st0"
    and bh: "branch_heads st = branch_heads st0"
    by simp_all
  from inv have "set (map fst (visited_results st)) = fst ` set (commit_coroutines st)"
    by (simp add: resolution_inv_def)
  then have vis: "has_key (visited_results st) c \<longleftrightarrow> has_key (commit_coroutines st) c" for c
    by (simp add: has_key_iff)
  have w: "wants st = wants st0"
    by (simp add: wants_def fun_eq_iff mc)
  from q0(2) mc have a: "phase1_recorded vs st"
    by (simp add: phase1_recorded_def)
  from k0 cc mc have b: "has_key (visited_results st) c \<longrightarrow>
           has_key (commit_coroutines_must_continue st) c" for c
    unfolding vis by (simp add: has_key_iff)
  from q0(1) h0 have c: "has_key (visited_results st) c \<longrightarrow> wants st c \<longrightarrow> p \<in> set (parents c)
           \<longrightarrow> has_key (visited_results st) p" for c p
    unfolding parents_queued_def vis w cc by simp
  from a b c show ?thesis by blast
qed

lemma epoch_versions_to_check_mem:
  "epoch_versions_to_check P ps = Inr evs \<Longrightarrow> p \<in> set ps \<Longrightarrow>
   get_rpmverflags_for_commit P p = Inr (Some w) \<Longrightarrow> epoch_version w \<in> set evs"
  by (induction ps arbitrary: evs) (auto split: sum.splits option.splits)

lemma release_number_phase1_True:
  assumes "release_number_phase1 P c f = Inr b"
    and "get_rpmverflags_for_commit P c = Inr vc"
    and "p \<in> set (parents c)"
    and "get_rpmverflags_for_commit P p = Inr vp"
    and "map_option epoch_version vc = map_option epoch_version vp"
  shows b
proof (cases vc)
  case None
  with assms(1,2) show ?thesis
    by (simp add: release_number_phase1_def release_number_locals_def truthy_str_def)
next
  case (Some v)
  with assms(5) obtain w where vp: "vp = Some w" and ev: "epoch_version w = epoch_version v"
    by (cases vp) auto
  show ?thesis
  proof (cases "epoch_version v = []")
    case True
    with Some assms(1,2) show ?thesis
      by (simp add: release_number_phase1_def release_number_locals_def truthy_str_def)
  next
    case False
    with Some assms(1,2) obtain evs where
      evs: "epoch_versions_to_check P (parents c) = Inr evs" and b: "b = (epoch_version v \<in> set evs)"
      by (auto simp: release_number_phase1_def release_number_locals_def truthy_str_def
          the_str_def split: sum.splits)
    from epoch_versions_to_check_mem [OF evs assms(3)] assms(4) vp ev b show ?thesis
      by simp
  qed
qed

lemma release_number_establish_epoch:
  assumes "set rest \<subseteq> {changelog_visitor P}"
  shows "visitors_establish (release_number_visitor P # rest) (\<lambda>r. True)
     (\<lambda>c r prs. \<exists>vf. get_rpmverflags_for_commit P c = Inr vf
        \<and> map_of r ''epoch-version'' = Some (str_opt_value (map_option epoch_version vf)))"
  unfolding visitors_establish_def
proof (intro allI impI)
  fix c flags prs r
  assume len: "length flags = length (release_number_visitor P # rest)"
    and send: "send_all (zip (release_number_visitor P # rest) flags) c prs
        [(''commit-id'', VOid (commit_id c))] = Inr r"
  from len obtain f fs where flags: "flags = f # fs" by (cases flags) auto
  with send obtain r1 where
    r1: "release_number_phase2 P c f [(''commit-id'', VOid (commit_id c))] prs = Inr r1"
    and rest: "send_all (zip rest fs) c prs r1 = Inr r"
    by (auto simp: release_number_visitor_def split: sum.splits)
  have keep: "map_of r ''epoch-version'' = map_of r1 ''epoch-version''"
  proof (rule send_all_keeps [OF rest])
    fix v f' ra rb
    assume "(v, f') \<in> set (zip rest fs)" "phase2 v c f' ra prs = Inr rb"
    moreover then have "v = changelog_visitor P"
      using assms set_zip_leftD by fastforce
    ultimately show "map_of rb ''epoch-version'' = map_of ra ''epoch-version''"
      by (simp add: changelog_visitor_def changelog_phase2_keeps)
  qed
  from r1 obtain vf where vf: "get_rpmverflags_for_commit P c = Inr vf"
    by (auto simp: release_number_phase2_def split: sum.splits)
  have "rn_epoch_version (release_number_locals vf) = map_option epoch_version vf"
    by (cases vf) (simp_all add: release_number_locals_def)
  with r1 vf have "map_of r1 ''epoch-version'' = Some (str_opt_value (map_option epoch_version vf))"
    by (auto simp: release_number_phase2_def Let_def update_conv' split: sum.splits)
  with vf keep show "(\<exists>vf. get_rpmverflags_for_commit P c = Inr vf
        \<and> map_of r ''epoch-version'' = Some (str_opt_value (map_option epoch_version vf))) \<and> True"
    by simp
qed

text \<open>
  In a run with the release number visitor first, every parent whose metadata gives the
  epoch-version of a commit with a result has a result too, with the same value under
  \<open>epoch-version\<close>.
\<close>

lemma same_epoch_version_parent_resolved:
  assumes run: "run_on_history fuel (release_number_visitor P # rest) head = Some (Inr results)"
    and rest: "set rest \<subseteq> {changelog_visitor P}"
    and c: "map_of results c = Some r"
    and p: "p \<in> set (parents c)"
    and vc: "get_rpmverflags_for_commit P c = Inr vc"
    and vp: "get_rpmverflags_for_commit P p = Inr vp"
    and same: "map_option epoch_version vc = map_option epoch_version vp"
  shows "\<exists>r'. map_of results p = Some r'
     \<and> map_of r' ''epoch-version'' = map_of r ''epoch-version''"
proof -
  let ?vs = "release_number_visitor P # rest"
  from run obtain st where st: "run_passes fuel ?vs head = Some (Inr st)"
    and res: "results = visited_results st"
    by (auto simp: run_on_history_def split: option.splits sum.splits)
  note pr = run_passes_parents_resolved [OF st]
  from c res have hc: "has_key (visited_results st) c"
    by (simp add: has_key_def)
  with pr obtain mcs where mcs: "map_of (commit_coroutines_must_continue st) c = Some mcs"
    by (auto simp: has_key_def)
  with pr obtain flags where fl: "length flags = length ?vs"
    and seq: "sequence (map (\<lambda>(v, flag). phase1 v c flag) (zip ?vs flags)) = Inr mcs"
    unfolding phase1_recorded_def by blast
  from fl obtain f fs where flags: "flags = f # fs" by (cases flags) auto
  with seq obtain b bs where b: "release_number_phase1 P c f = Inr b" and m: "mcs = b # bs"
    by (auto simp: release_number_visitor_def split: sum.splits)
  from release_number_phase1_True [OF b vc p vp same] have b
    .
  with m mcs have "wants st c"
    by (simp add: wants_def)
  with pr hc p have "has_key (visited_results st) p" by blast
  then obtain r' where r': "map_of results p = Some r'"
    by (auto simp: has_key_def res)
  from run_passes_inv [OF st release_number_establish_epoch [OF rest]]
  have inv: "results_inv (\<lambda>r. True)
     (\<lambda>c r prs. \<exists>vf. get_rpmverflags_for_commit P c = Inr vf
        \<and> map_of r ''epoch-version'' = Some (str_opt_value (map_option epoch_version vf))) st"
    by simp
  from inv c res vc have "map_of r ''epoch-version'' = Some (str_opt_value (map_option epoch_version vc))"
    unfolding results_inv_def by fastforce
  moreover from inv r' res vp
  have "map_of r' ''epoch-version'' = Some (str_opt_value (map_option epoch_version vp))"
    unfolding results_inv_def by fastforce
  ultimately show ?thesis using r' same by simp
qed

text \<open>
  C1: in the results of a run with the release number visitor first (alone, or followed
  by the changelog visitor), the release number of a commit is 1 plus the maximum of the
  release numbers of those parents that have a result with the commit's epoch-version (0
  when there is none); so it is at least 1.  The value under \<open>epoch-version\<close> is the one
  the metadata query gives for the commit, and every parent for which the query gives the
  same epoch-version has a result, so that no such parent is left out of the maximum.
  Parent results for one epoch-version with release numbers 3 and 5 give 6.
\<close>

theorem release_number_rule:
  assumes "run_on_history fuel (release_number_visitor P # rest) head = Some (Inr results)"
    and "set rest \<subseteq> {changelog_visitor P}"
    and "map_of results c = Some r"
  shows "(\<exists>n. map_of r ''release-number'' = Some (VInt n)
           \<and> n = 1 + Max (insert 0
                   {m. \<exists>p\<in>set (parents c). \<exists>r'. map_of results p = Some r'
                      \<and> map_of r' ''epoch-version'' = map_of r ''epoch-version''
                      \<and> map_of r' ''release-number'' = Some (VInt m)})
           \<and> 1 \<le> n)
       \<and> (\<exists>vf. get_rpmverflags_for_commit P c = Inr vf
            \<and> map_of r ''epoch-version'' = Some (str_opt_value (map_option epoch_version vf)))
       \<and> (\<forall>p\<in>set (parents c). \<forall>vc vp.
            get_rpmverflags_for_commit P c = Inr vc \<longrightarrow>
            get_rpmverflags_for_commit P p = Inr vp \<longrightarrow>
            map_option epoch_version vc = map_option epoch_version vp \<longrightarrow>
            (\<exists>r'. map_of results p = Some r'
               \<and> map_of r' ''epoch-version'' = map_of r ''epoch-version''))
       \<and> release_number_of (Some ev)
            [[(''epoch-version'', VStr ev), (''release-number'', VInt 3)],
             [(''epoch-version'', VStr ev), (''release-number'', VInt 5)]] = Inr 6"
proof -
  from assms(1) obtain st where st: "run_passes fuel (release_number_visitor P # rest) head = Some (Inr st)"
    and res: "results = visited_results st"
    by (auto simp: run_on_history_def split: option.splits sum.splits)
  from run_passes_inv [OF st release_number_establish [OF assms(2)]]
  have inv: "results_inv release_fields
     (\<lambda>c r prs. \<exists>n. map_of r ''release-number'' = Some (VInt n)
        \<and> n = 1 + Max (insert 0 {m. \<exists>pr\<in>set prs. pr \<noteq> []
              \<and> map_of pr ''epoch-version'' = map_of r ''epoch-version''
              \<and> map_of pr ''release-number'' = Some (VInt m)})) st"
    by simp
  let ?prs = "map (results_get results) (parents c)"
  from inv assms(3) res obtain n where
    n: "map_of r ''release-number'' = Some (VInt n)"
      "n = 1 + Max (insert 0 {m. \<exists>pr\<in>set ?prs. pr \<noteq> []
              \<and> map_of pr ''epoch-version'' = map_of r ''epoch-version''
              \<and> map_of pr ''release-number'' = Some (VInt m)})"
    and rf: "release_fields r"
    unfolding results_inv_def by blast
  have nonempty: "r' \<noteq> []" if "map_of results p = Some r'" for p r'
    using inv that res unfolding results_inv_def release_fields_def by blast
  have "{m. \<exists>pr\<in>set ?prs. pr \<noteq> []
              \<and> map_of pr ''epoch-version'' = map_of r ''epoch-version''
              \<and> map_of pr ''release-number'' = Some (VInt m)}
      = {m. \<exists>p\<in>set (parents c). \<exists>r'. map_of results p = Some r'
                      \<and> map_of r' ''epoch-version'' = map_of r ''epoch-version''
                      \<and> map_of r' ''release-number'' = Some (VInt m)}" (is "?A = ?B")
  proof (intro set_eqI iffI)
    fix m assume "m \<in> ?A"
    then obtain p where p: "p \<in> set (parents c)" "results_get results p \<noteq> []"
      "map_of (results_get results p) ''epoch-version'' = map_of r ''epoch-version''"
      "map_of (results_get results p) ''release-number'' = Some (VInt m)"
      by auto
    from p(2) obtain r' where "map_of results p = Some r'" "results_get results p = r'"
      by (auto simp: results_get_def split: option.splits)
    with p show "m \<in> ?B" by auto
  next
    fix m assume "m \<in> ?B"
    then obtain p r' where p: "p \<in> set (parents c)" "map_of results p = Some r'"
      "map_of r' ''epoch-version'' = map_of r ''epoch-version''"
      "map_of r' ''release-number'' = Some (VInt m)"
      by auto
    from p(2) have "results_get results p = r'" by (simp add: results_get_def)
    with p nonempty [OF p(2)] show "m \<in> ?A" by force
  qed
  with n have "n = 1 + Max (insert 0 ?B)" by simp
  moreover from rf n(1) have "1 \<le> n" by (auto simp: release_fields_def)
  ultimately have number: "\<exists>n. map_of r ''release-number'' = Some (VInt n)
           \<and> n = 1 + Max (insert 0 ?B) \<and> 1 \<le> n"
    using n(1) by blast
  from run_passes_inv [OF st release_number_establish_epoch [OF assms(2)]]
  have "results_inv (\<lambda>r. True)
     (\<lambda>c r prs. \<exists>vf. get_rpmverflags_for_commit P c = Inr vf
        \<and> map_of r ''epoch-version'' = Some (str_opt_value (map_option epoch_version vf))) st"
    by simp
  with assms(3) res have field: "\<exists>vf. get_rpmverflags_for_commit P c = Inr vf
        \<and> map_of r ''epoch-version'' = Some (str_opt_value (map_option epoch_version vf))"
    unfolding results_inv_def by fastforce
  have complete: "\<forall>p\<in>set (parents c). \<forall>vc vp.
            get_rpmverflags_for_commit P c = Inr vc \<longrightarrow>
            get_rpmverflags_for_commit P p = Inr vp \<longrightarrow>
            map_option epoch_version vc = map_option epoch_version vp \<longrightarrow>
            (\<exists>r'. map_of results p = Some r'
               \<and> map_of r' ''epoch-version'' = map_of r ''epoch-version'')"
    by (intro ballI allI impI) (rule same_epoch_version_parent_resolved [OF assms])
  have example: "release_number_of (Some ev)
            [[(''epoch-version'', VStr ev), (''release-number'', VInt 3)],
             [(''epoch-version'', VStr ev), (''release-number'', VInt 5)]] = Inr 6"
    by (simp add: release_number_of_def parent_release_number_def getitem_def
        str_opt_value_def py_max_def)
  from number field complete example show ?thesis
    by (intro conjI)
qed

theorem release_number_rule_witness:
  "\<exists>results.
     run_on_history 20 [release_number_visitor example_processor] ex_three_five
       = Some (Inr results)
     \<and> map_of results ex_a2 = Some (ex_release_result 12 3 ''3'')
     \<and> map_of results ex_b4 = Some (ex_release_result 24 5 ''5'')
     \<and> map_of results ex_three_five = Some (ex_release_result 30 6 ''6'')
     \<and> map_of (ex_release_result 30 6 ''6'') ''release-number'' = Some (VInt 6)"
proof -
  have "map_option
      (map_sum id (\<lambda>rs. (map_of rs ex_a2, map_of rs ex_b4, map_of rs ex_three_five)))
      (run_on_history 20 [release_number_visitor example_processor] ex_three_five)
    = Some (Inr (Some (ex_release_result 12 3 ''3''), Some (ex_release_result 24 5 ''5''),
                 Some (ex_release_result 30 6 ''6'')))"
    by code_simp
  from map_result_InrD [OF this] obtain results where
    run: "run_on_history 20 [release_number_visitor example_processor] ex_three_five
       = Some (Inr results)"
    and look: "map_of results ex_a2 = Some (ex_release_result 12 3 ''3'')"
      "map_of results ex_b4 = Some (ex_release_result 24 5 ''5'')"
      "map_of results ex_three_five = Some (ex_release_result 30 6 ''6'')"
    by (elim exE conjE) simp
  have sub: "set [] \<subseteq> {changelog_visitor example_processor}" by simp
  from release_number_rule [OF run sub look(3)]
  have "map_of (ex_release_result 30 6 ''6'') ''release-number'' = Some (VInt 6)"
    by (simp add: ex_release_result_def)
  with run look show ?thesis by (intro exI [of _ results]) simp
qed

section \<open>Determinism\<close>

lemma ancestors_self: "c \<in> set (ancestors c)"
  by (cases c) simp

lemma ancestors_parents:
  "c \<in> set (ancestors head) \<Longrightarrow> p \<in> set (parents c) \<Longrightarrow> p \<in> set (ancestors head)"
proof (induction head rule: ancestors.induct)
  case (1 i ps t an ae ct m)
  show ?case
  proof (cases "c = Commit i ps t an ae ct m")
    case True
    with "1.prems"(2) have "p \<in> set ps" by simp
    then show ?thesis using ancestors_self [of p] by auto
  next
    case False
    with "1.prems"(1) obtain q where q: "q \<in> set ps" "c \<in> set (ancestors q)" by auto
    from "1.IH" [OF q(1) q(2) "1.prems"(2)] q(1) show ?thesis by auto
  qed
qed

lemma visitors_agree_length: "visitors_agree S vs1 vs2 \<Longrightarrow> length vs1 = length vs2"
  by (simp add: visitors_agree_def list_all2_lengthD)

lemma visitors_agree_phase1:
  assumes "visitors_agree S vs1 vs2" and "c \<in> S"
  shows "map (\<lambda>(v, flag). phase1 v c flag) (zip vs1 flags)
       = map (\<lambda>(v, flag). phase1 v c flag) (zip vs2 flags)"
  using assms unfolding visitors_agree_def
proof (induction vs1 vs2 arbitrary: flags rule: list_all2_induct)
  case Nil
  then show ?case by simp
next
  case (Cons v1 vs1 v2 vs2)
  then show ?case by (cases flags) auto
qed

lemma visitors_agree_send_all:
  assumes "visitors_agree S vs1 vs2" and "c \<in> S"
  shows "send_all (zip vs1 flags) c prs r = send_all (zip vs2 flags) c prs r"
  using assms unfolding visitors_agree_def
proof (induction vs1 vs2 arbitrary: flags r rule: list_all2_induct)
  case Nil
  then show ?case by simp
next
  case (Cons v1 vs1 v2 vs2)
  show ?case
  proof (cases flags)
    case Nil
    then show ?thesis by simp
  next
    case (Cons f fs)
    from Cons.hyps(1) Cons.prems have "phase2 v1 c = phase2 v2 c" by simp
    with Cons Cons.IH [OF Cons.prems] show ?thesis
      by (simp split: sum.splits)
  qed
qed

lemma discover_commit_agree:
  assumes "visitors_agree S vs1 vs2" and "c \<in> S"
  shows "discover_commit vs1 head cc c branch st = discover_commit vs2 head cc c branch st"
proof -
  note len = visitors_agree_length [OF assms(1)]
  then have true: "map (\<lambda>v. True) vs1 = map (\<lambda>v. True) vs2"
    by (simp add: map_replicate_const)
  have cv: "children_visitors_must_continue vs1 head cc c st
      = children_visitors_must_continue vs2 head cc c st"
    unfolding children_visitors_must_continue_def true len ..
  show ?thesis
    unfolding discover_commit_def cv visitors_agree_phase1 [OF assms] ..
qed

lemma resolve_commit_agree:
  assumes "visitors_agree S vs1 vs2" and "c \<in> S"
  shows "resolve_commit vs1 c st = resolve_commit vs2 c st"
  unfolding resolve_commit_def visitors_agree_send_all [OF assms] ..

lemma discover_commit_heads:
  assumes "discover_commit vs head cc c branch st = Inr step"
  shows "case step of
           Break st' \<Rightarrow> set (branch_heads st') \<subseteq> insert c (set (branch_heads st))
         | Next c' branch' st' \<Rightarrow>
             c' \<in> set (parents c)
             \<and> set (branch_heads st') \<subseteq> set (branch_heads st) \<union> set (parents c)"
  using assms unfolding discover_commit_def Let_def
  by (auto split: if_splits sum.splits option.splits dest: list.set_sel(2))

lemma discover_commit_within_Next:
  assumes "discover_commit vs head cc c branch st = Inr (Next c' branch' st')"
    and "c \<in> S" and "within S st" and "\<forall>c\<in>S. set (parents c) \<subseteq> S"
  shows "c' \<in> S \<and> within S st'"
proof -
  from discover_commit_heads [OF assms(1)] have
    h: "c' \<in> set (parents c)" "set (branch_heads st') \<subseteq> set (branch_heads st) \<union> set (parents c)"
    by simp_all
  from discover_commit_NextD [OF assms(1)] obtain flags where
    "commit_coroutines st' = AList.update c flags (commit_coroutines st)" by blast
  with h assms(2,3,4) show ?thesis
    by (auto simp: within_def keys_update)
qed

lemma discover_commit_within_Break:
  assumes "discover_commit vs head cc c branch st = Inr (Break st')"
    and "c \<in> S" and "within S st"
  shows "within S st'"
proof -
  from discover_commit_heads [OF assms(1)] have
    h: "set (branch_heads st') \<subseteq> insert c (set (branch_heads st))"
    by simp
  from discover_commit_BreakD [OF assms(1)] consider
      "commit_coroutines st' = commit_coroutines st"
    | flags where "commit_coroutines st' = AList.update c flags (commit_coroutines st)"
    by blast
  then have "fst ` set (commit_coroutines st') \<subseteq> insert c (fst ` set (commit_coroutines st))"
    by cases (auto simp only: keys_update)
  with assms(2,3) have "fst ` set (commit_coroutines st') \<subseteq> S"
    unfolding within_def by blast
  moreover from h assms(2,3) have "set (branch_heads st') \<subseteq> S"
    unfolding within_def by blast
  ultimately show ?thesis
    by (simp add: within_def)
qed

lemma discover_branch_within:
  assumes "discover_branch vs head cc c branch st = Inr st'"
    and "c \<in> S" and "within S st" and "\<forall>c\<in>S. set (parents c) \<subseteq> S"
  shows "within S st'"
proof (rule discover_branch_rule [OF assms(1),
      where Q = "\<lambda>c branch st. c \<in> S \<and> within S st" and R = "within S"])
  show "c \<in> S \<and> within S st" using assms(2,3) by simp
next
  fix c branch st c' branch' st1
  assume "c \<in> S \<and> within S st"
    "discover_commit vs head cc c branch st = Inr (Next c' branch' st1)"
  then show "c' \<in> S \<and> within S st1"
    using discover_commit_within_Next assms(4) by metis
next
  fix c branch st st1
  assume "c \<in> S \<and> within S st" "discover_commit vs head cc c branch st = Inr (Break st1)"
  then show "within S st1"
    using discover_commit_within_Break by metis
qed

lemma discover_branch_agree:
  assumes "visitors_agree S vs1 vs2" and "c \<in> S" and "\<forall>c\<in>S. set (parents c) \<subseteq> S"
  shows "discover_branch vs1 head cc c branch st = discover_branch vs2 head cc c branch st"
  using assms
proof (induction vs1 head cc c branch st rule: discover_branch.induct)
  case (1 visitors head children c branch st)
  note eq = discover_commit_agree [OF "1.prems"(1,2), of head children branch st]
  show ?case
  proof (cases "discover_commit visitors head children c branch st")
    case (Inl e)
    moreover from Inl eq have "discover_commit vs2 head children c branch st = Inl e"
      by simp
    ultimately show ?thesis
      by (simp add: discover_branch.simps [of visitors head children c branch st]
          discover_branch.simps [of vs2 head children c branch st])
  next
    case (Inr step)
    from Inr eq have Inr2: "discover_commit vs2 head children c branch st = Inr step"
      by simp
    show ?thesis
    proof (cases step)
      case (Break st1)
      with Inr Inr2 show ?thesis
        by (simp add: discover_branch.simps [of visitors head children c branch st]
            discover_branch.simps [of vs2 head children c branch st])
    next
      case (Next c1 branch1 st1)
      with Inr discover_commit_heads [of visitors head children c branch st step]
      have "c1 \<in> set (parents c)" by simp
      with "1.prems"(2,3) have "c1 \<in> S" by auto
      from "1.IH" [OF Inr Next "1.prems"(1) this "1.prems"(3)] Next Inr Inr2 show ?thesis
        by (simp add: discover_branch.simps [of visitors head children c branch st]
            discover_branch.simps [of vs2 head children c branch st])
    qed
  qed
qed

lemma within_heads [simp]:
  "within S (st\<lparr>branch_heads := rest\<rparr>) \<longleftrightarrow>
     set rest \<subseteq> S \<and> fst ` set (commit_coroutines st) \<subseteq> S"
  by (simp add: within_def)

lemma discover_agree:
  assumes "visitors_agree S vs1 vs2" and "within S st" and "\<forall>c\<in>S. set (parents c) \<subseteq> S"
  shows "discover fuel vs1 head cc st = discover fuel vs2 head cc st"
  using assms(2)
proof (induction fuel arbitrary: st)
  case 0
  show ?case by simp
next
  case (Suc fuel)
  show ?case
  proof (cases "branch_heads st")
    case Nil
    then show ?thesis by simp
  next
    case (Cons c rest)
    with Suc.prems have c: "c \<in> S" and w: "within S (st\<lparr>branch_heads := rest\<rparr>)"
      by (auto simp: within_def)
    note eq = discover_branch_agree [OF assms(1) c assms(3), of head cc "[]" "st\<lparr>branch_heads := rest\<rparr>"]
    show ?thesis
    proof (cases "discover_branch vs1 head cc c [] (st\<lparr>branch_heads := rest\<rparr>)")
      case (Inl e)
      moreover from Inl eq
      have "discover_branch vs2 head cc c [] (st\<lparr>branch_heads := rest\<rparr>) = Inl e" by simp
      ultimately show ?thesis using Cons by simp
    next
      case (Inr st1)
      from Inr eq
      have Inr2: "discover_branch vs2 head cc c [] (st\<lparr>branch_heads := rest\<rparr>) = Inr st1" by simp
      from discover_branch_within [OF Inr c w assms(3)] have "within S st1" .
      from Suc.IH [OF this] Inr Inr2 Cons show ?thesis by simp
    qed
  qed
qed

lemma discover_within:
  assumes "discover fuel vs head cc st = Some (Inr st')"
    and "within S st" and "\<forall>c\<in>S. set (parents c) \<subseteq> S"
  shows "within S st'"
proof (rule discover_rule [OF assms(1),
      where Q = "\<lambda>c branch st. c \<in> S \<and> within S st" and R = "within S"])
  show "within S st" by (rule assms(2))
next
  fix c rest st
  assume "within S st" "branch_heads st = c # rest"
  then show "c \<in> S \<and> within S (st\<lparr>branch_heads := rest\<rparr>)"
    by (auto simp: within_def)
next
  fix c branch st c' branch' st1
  assume "c \<in> S \<and> within S st"
    "discover_commit vs head cc c branch st = Inr (Next c' branch' st1)"
  then show "c' \<in> S \<and> within S st1"
    using discover_commit_within_Next assms(3) by metis
next
  fix c branch st st1
  assume "c \<in> S \<and> within S st" "discover_commit vs head cc c branch st = Inr (Break st1)"
  then show "within S st1"
    using discover_commit_within_Break by metis
qed

lemma resolve_branch_branches:
  assumes "resolve_branch vs branch st = Inr st'"
  shows "set (concat (branches st')) \<subseteq> set branch \<union> set (concat (branches st))"
  using assms
proof (induction vs branch st rule: resolve_branch.induct)
  case (1 visitors branch st)
  show ?case
  proof (cases "branch = []")
    case True
    with "1.prems"(1) have "st' = st"
      by (simp add: resolve_branch.simps [of visitors "[]" st])
    then show ?thesis by simp
  next
    case False
    show ?thesis
    proof (cases "resolve_commit visitors (last branch) st")
      case (Inl e)
      with False "1.prems"(1) show ?thesis
        by (simp add: resolve_branch.simps [of visitors branch st])
    next
      case (Inr out)
      show ?thesis
      proof (cases out)
        case None
        with Inr False "1.prems"(1) have "st' = st\<lparr>branches := branches st @ [branch]\<rparr>"
          by (simp add: resolve_branch.simps [of visitors branch st])
        then show ?thesis by auto
      next
        case (Some st1)
        with Inr False "1.prems"(1) have run: "resolve_branch visitors (butlast branch) st1 = Inr st'"
          by (simp add: resolve_branch.simps [of visitors branch st])
        from Inr Some have "resolve_commit visitors (last branch) st = Inr (Some st1)" by simp
        from resolve_commit_branches [OF this] have b: "branches st1 = branches st" by simp
        from "1.IH" [OF False Inr Some run] b show ?thesis
          by (auto dest: in_set_butlastD)
      qed
    qed
  qed
qed

lemma resolve_branch_agree:
  assumes "visitors_agree S vs1 vs2" and "set branch \<subseteq> S"
  shows "resolve_branch vs1 branch st = resolve_branch vs2 branch st"
  using assms
proof (induction vs1 branch st rule: resolve_branch.induct)
  case (1 visitors branch st)
  show ?case
  proof (cases "branch = []")
    case True
    then show ?thesis
      by (simp add: resolve_branch.simps [of visitors "[]" st] resolve_branch.simps [of vs2 "[]" st])
  next
    case False
    with "1.prems"(2) have "last branch \<in> S" by auto
    note eq = resolve_commit_agree [OF "1.prems"(1) this, of st]
    show ?thesis
    proof (cases "resolve_commit visitors (last branch) st")
      case (Inl e)
      moreover from Inl eq have "resolve_commit vs2 (last branch) st = Inl e" by simp
      ultimately show ?thesis using False
        by (simp add: resolve_branch.simps [of visitors branch st]
            resolve_branch.simps [of vs2 branch st])
    next
      case (Inr out)
      from Inr eq have Inr2: "resolve_commit vs2 (last branch) st = Inr out" by simp
      show ?thesis
      proof (cases out)
        case None
        with Inr Inr2 False show ?thesis
          by (simp add: resolve_branch.simps [of visitors branch st]
              resolve_branch.simps [of vs2 branch st])
      next
        case (Some st1)
        from "1.prems"(2) have "set (butlast branch) \<subseteq> S"
          by (auto dest: in_set_butlastD)
        from "1.IH" [OF False Inr Some "1.prems"(1) this] Some Inr Inr2 False show ?thesis
          by (simp add: resolve_branch.simps [of visitors branch st]
              resolve_branch.simps [of vs2 branch st])
      qed
    qed
  qed
qed

lemma resolve_agree:
  assumes "visitors_agree S vs1 vs2" and "set (concat (branches st)) \<subseteq> S"
  shows "resolve fuel vs1 st = resolve fuel vs2 st"
  using assms(2)
proof (induction fuel arbitrary: st)
  case 0
  show ?case by simp
next
  case (Suc fuel)
  show ?case
  proof (cases "branches st")
    case Nil
    then show ?thesis by simp
  next
    case (Cons branch rest)
    with Suc.prems have b: "set branch \<subseteq> S" and r: "set (concat rest) \<subseteq> S"
      by auto
    note eq = resolve_branch_agree [OF assms(1) b, of "st\<lparr>branches := rest\<rparr>"]
    show ?thesis
    proof (cases "resolve_branch vs1 branch (st\<lparr>branches := rest\<rparr>)")
      case (Inl e)
      moreover from Inl eq
      have "resolve_branch vs2 branch (st\<lparr>branches := rest\<rparr>) = Inl e" by simp
      ultimately show ?thesis using Cons by simp
    next
      case (Inr st1)
      from Inr eq
      have Inr2: "resolve_branch vs2 branch (st\<lparr>branches := rest\<rparr>) = Inr st1" by simp
      from resolve_branch_branches [OF Inr] b r have "set (concat (branches st1)) \<subseteq> S"
        by auto
      from Suc.IH [OF this] Inr Inr2 Cons show ?thesis by simp
    qed
  qed
qed

lemma run_passes_agree:
  assumes "visitors_agree (set (ancestors head)) vs1 vs2"
  shows "run_passes fuel vs1 head = run_passes fuel vs2 head"
proof -
  let ?S = "set (ancestors head)"
  have closed: "\<forall>c\<in>?S. set (parents c) \<subseteq> ?S"
    using ancestors_parents by blast
  have start: "within ?S (initial_state head)"
    by (simp add: within_def initial_state_def ancestors_self)
  note d = discover_agree [OF assms start closed, of fuel head "commit_children (walk head)"]
  show ?thesis
  proof (cases "discover fuel vs1 head (commit_children (walk head)) (initial_state head)")
    case None
    moreover from None d
    have "discover fuel vs2 head (commit_children (walk head)) (initial_state head) = None"
      by simp
    ultimately show ?thesis by (simp add: run_passes_def)
  next
    case (Some out)
    from Some d
    have Some2: "discover fuel vs2 head (commit_children (walk head)) (initial_state head)
        = Some out" by simp
    show ?thesis
    proof (cases out)
      case (Inl e)
      with Some Some2 show ?thesis by (simp add: run_passes_def)
    next
      case (Inr st)
      with Some have run: "discover fuel vs1 head (commit_children (walk head)) (initial_state head)
          = Some (Inr st)" by simp
      from discover_within [OF run start closed] have w: "within ?S st" .
      from discover_inv [OF run] have "set (concat (branches st)) = fst ` set (commit_coroutines st)"
        by (simp add: initial_state_def)
      with w have "set (concat (branches st)) \<subseteq> ?S" by (simp add: within_def)
      from resolve_agree [OF assms this] Inr Some Some2 show ?thesis
        by (simp add: run_passes_def)
    qed
  qed
qed

lemma discover_fuel:
  "discover fuel vs head cc st = Some out \<Longrightarrow> discover (fuel + k) vs head cc st = Some out"
proof (induction fuel arbitrary: st)
  case 0
  then show ?case by simp
next
  case (Suc fuel)
  show ?case
  proof (cases "branch_heads st")
    case Nil
    with Suc.prems show ?thesis by simp
  next
    case (Cons c rest)
    show ?thesis
    proof (cases "discover_branch vs head cc c [] (st\<lparr>branch_heads := rest\<rparr>)")
      case (Inl e)
      with Cons Suc.prems have "out = Inl e" by simp
      with Cons Inl show ?thesis by simp
    next
      case (Inr st1)
      with Cons Suc.prems have "discover fuel vs head cc st1 = Some out" by simp
      from Suc.IH [OF this] Cons Inr show ?thesis by simp
    qed
  qed
qed

lemma resolve_fuel:
  "resolve fuel vs st = Some out \<Longrightarrow> resolve (fuel + k) vs st = Some out"
proof (induction fuel arbitrary: st)
  case 0
  then show ?case by simp
next
  case (Suc fuel)
  show ?case
  proof (cases "branches st")
    case Nil
    with Suc.prems show ?thesis by simp
  next
    case (Cons branch rest)
    show ?thesis
    proof (cases "resolve_branch vs branch (st\<lparr>branches := rest\<rparr>)")
      case (Inl e)
      with Cons Suc.prems have "out = Inl e" by simp
      with Cons Inl show ?thesis by simp
    next
      case (Inr st1)
      with Cons Suc.prems have "resolve fuel vs st1 = Some out" by simp
      from Suc.IH [OF this] Cons Inr show ?thesis by simp
    qed
  qed
qed

lemma run_passes_fuel:
  assumes "run_passes fuel vs head = Some out"
  shows "run_passes (fuel + k) vs head = Some out"
proof (cases "discover fuel vs head (commit_children (walk head)) (initial_state head)")
  case None
  with assms show ?thesis by (simp add: run_passes_def)
next
  case (Some d)
  note more = discover_fuel [OF Some, of k]
  show ?thesis
  proof (cases d)
    case (Inl e)
    with Some assms have "out = Inl e" by (simp add: run_passes_def)
    with Inl more show ?thesis by (simp add: run_passes_def)
  next
    case (Inr st)
    with Some assms have "resolve fuel vs st = Some out" by (simp add: run_passes_def)
    from resolve_fuel [OF this, of k] Some more Inr show ?thesis by (simp add: run_passes_def)
  qed
qed

lemma run_passes_fuel_independent:
  assumes "run_passes fuel1 vs head = Some out1" and "run_passes fuel2 vs head = Some out2"
  shows "out1 = out2"
proof (cases "fuel1 \<le> fuel2")
  case True
  then obtain k where "fuel2 = fuel1 + k" using le_Suc_ex by blast
  with run_passes_fuel [OF assms(1), of k] assms(2) show ?thesis by simp
next
  case False
  then obtain k where "fuel1 = fuel2 + k" using le_Suc_ex nat_le_linear by blast
  with run_passes_fuel [OF assms(2), of k] assms(1) show ?thesis by simp
qed

lemma epoch_versions_to_check_agree:
  "\<forall>p\<in>set ps. get_rpmverflags_for_commit P1 p = get_rpmverflags_for_commit P2 p \<Longrightarrow>
   epoch_versions_to_check P1 ps = epoch_versions_to_check P2 ps"
  by (induction ps) (simp_all cong: sum.case_cong)

lemma parent_to_follow_parent: "parent_to_follow c = Some p \<Longrightarrow> p \<in> set (parents c)"
  by (auto simp: parent_to_follow_def split: if_splits list.splits dest: find_SomeD)

lemma built_in_visitors_agree:
  assumes nm: "name P1 = name P2" and tm: "strftime P1 = strftime P2"
    and wf: "wrap_fill P1 = wrap_fill P2"
    and rp: "\<forall>c\<in>set (ancestors head). \<forall>b.
        map_of (tree c) (name P1 @ ''.spec'') = Some b \<longrightarrow> rpm P1 b = rpm P2 b"
    and df: "\<forall>c\<in>set (ancestors head).
        diff_to_tree P1 [] (tree c) = diff_to_tree P2 [] (tree c)
        \<and> (\<forall>p\<in>set (parents c).
              diff_to_tree P1 (tree p) (tree c) = diff_to_tree P2 (tree p) (tree c))"
  shows "visitors_agree (set (ancestors head))
     [release_number_visitor P1, changelog_visitor P1]
     [release_number_visitor P2, changelog_visitor P2]"
proof -
  have sn: "specfile_name P1 = specfile_name P2"
    using nm by (simp add: specfile_name_def)
  have get: "get_rpmverflags_for_commit P1 c = get_rpmverflags_for_commit P2 c"
    if "c \<in> set (ancestors head)" for c
    using that rp sn
    by (auto simp: get_rpmverflags_for_commit_def specfile_name_def split: option.splits)
  have evs: "epoch_versions_to_check P1 (parents c) = epoch_versions_to_check P2 (parents c)"
    if "c \<in> set (ancestors head)" for c
    using that get ancestors_parents by (intro epoch_versions_to_check_agree) blast
  have r1: "release_number_phase1 P1 c = release_number_phase1 P2 c"
    if "c \<in> set (ancestors head)" for c
    unfolding release_number_phase1_def get [OF that] evs [OF that] ..
  have r2: "release_number_phase2 P1 c = release_number_phase2 P2 c"
    if "c \<in> set (ancestors head)" for c
    unfolding release_number_phase2_def get [OF that] ..
  have sp: "specfile_present P1 c = specfile_present P2 c" for c
    by (simp add: specfile_present_def sn)
  have c1: "changelog_phase1 P1 c = changelog_phase1 P2 c" for c
    by (intro ext) (simp add: changelog_phase1_def sp)
  have cf: "changed_files P1 c = changed_files P2 c" if "c \<in> set (ancestors head)" for c
    using that df parent_to_follow_parent [of c]
    by (auto simp: changed_files_def split: option.splits)
  have hd: "changelog_date P1 c = changelog_date P2 c" for c
    by (simp add: changelog_date_def tm)
  have ce: "commit_entry P1 c = commit_entry P2 c" for c
    by (intro ext) (simp add: commit_entry_def wf)
  have c2: "changelog_phase2 P1 c = changelog_phase2 P2 c" if "c \<in> set (ancestors head)" for c
    unfolding changelog_phase2_def sp hd ce skip_for_changelog_def cf [OF that] ..
  show ?thesis
    by (simp add: visitors_agree_def release_number_visitor_def changelog_visitor_def
        r1 r2 c1 c2)
qed

text \<open>
  A run with the built-in visitors is determined by the head and by the answers of
  the collaborators on the history of the head.  Two runs on the same head, with any
  amounts of fuel, whose processors have the same name and formatting functions and whose
  rpm query and tree diff give the same answers for the spec files and the trees of the
  commits reachable from the head, return the same result if both return.
\<close>

theorem run_deterministic:
  assumes "name P1 = name P2" and "strftime P1 = strftime P2" and "wrap_fill P1 = wrap_fill P2"
    and "\<forall>c\<in>set (ancestors head). \<forall>b.
        map_of (tree c) (name P1 @ ''.spec'') = Some b \<longrightarrow> rpm P1 b = rpm P2 b"
    and "\<forall>c\<in>set (ancestors head).
        diff_to_tree P1 [] (tree c) = diff_to_tree P2 [] (tree c)
        \<and> (\<forall>p\<in>set (parents c).
              diff_to_tree P1 (tree p) (tree c) = diff_to_tree P2 (tree p) (tree c))"
    and "run fuel1 [release_number_visitor P1, changelog_visitor P1] head all_results = Some out1"
    and "run fuel2 [release_number_visitor P2, changelog_visitor P2] head all_results = Some out2"
  shows "out1 = out2"
proof -
  let ?vs1 = "[release_number_visitor P1, changelog_visitor P1]"
  let ?vs2 = "[release_number_visitor P2, changelog_visitor P2]"
  have same: "run_passes fuel ?vs1 head = run_passes fuel ?vs2 head" for fuel
    by (rule run_passes_agree) (rule built_in_visitors_agree [OF assms(1-5)])
  from assms(6) obtain p1 where p1: "run_passes fuel1 ?vs1 head = Some p1"
    by (auto simp: run_def run_on_history_def split: option.splits)
  from assms(7) obtain p2 where p2: "run_passes fuel2 ?vs2 head = Some p2"
    by (auto simp: run_def run_on_history_def split: option.splits)
  from p2 same have "run_passes fuel2 ?vs1 head = Some p2" by simp
  with p1 have "p1 = p2" by (rule run_passes_fuel_independent)
  with p1 p2 assms(6,7) show ?thesis
    by (simp add: run_def run_on_history_def)
qed

theorem run_deterministic_witness:
  "run 10 [release_number_visitor example_processor, changelog_visitor example_processor]
      ex_left True
     = Some (Inr (AllResults [(ex_root, ex_root_result), (ex_left, ex_left_result)]))
   \<and> run 12 [release_number_visitor other_processor, changelog_visitor other_processor]
        ex_left True
     = Some (Inr (AllResults [(ex_root, ex_root_result), (ex_left, ex_left_result)]))
   \<and> rpm example_processor ''2.0'' \<noteq> rpm other_processor ''2.0''"
proof -
  have r1: "run 10 [release_number_visitor example_processor, changelog_visitor example_processor]
      ex_left True
     = Some (Inr (AllResults [(ex_root, ex_root_result), (ex_left, ex_left_result)]))"
    by code_simp
  have r2: "run 12 [release_number_visitor other_processor, changelog_visitor other_processor]
      ex_left True
     = Some (Inr (AllResults [(ex_root, ex_root_result), (ex_left, ex_left_result)]))"
    by code_simp
  have 1: "name example_processor = name other_processor"
    and 2: "strftime example_processor = strftime other_processor"
    and 3: "wrap_fill example_processor = wrap_fill other_processor"
    by (simp_all add: other_processor_def)
  have 4: "\<forall>c\<in>set (ancestors ex_left). \<forall>b.
        map_of (tree c) (name example_processor @ ''.spec'') = Some b
        \<longrightarrow> rpm example_processor b = rpm other_processor b"
    by (simp add: other_processor_def example_defs)
  have 5: "\<forall>c\<in>set (ancestors ex_left).
        diff_to_tree example_processor [] (tree c) = diff_to_tree other_processor [] (tree c)
        \<and> (\<forall>p\<in>set (parents c).
              diff_to_tree example_processor (tree p) (tree c)
                = diff_to_tree other_processor (tree p) (tree c))"
    by (simp add: other_processor_def example_defs)
  have 6: "rpm example_processor ''2.0'' \<noteq> rpm other_processor ''2.0''"
    by (simp add: other_processor_def example_processor_def)
  from run_deterministic [OF 1 2 3 4 5 r1 r2] r1 r2 6 show ?thesis
    by simp
qed

section \<open>A history on which the first pass does not end\<close>

text \<open>
  The side branch \<open>ex_side\<close> forked at \<open>ex_fork\<close>; the main line went on with
  \<open>ex_mid\<close> and the version bump \<open>ex_bump\<close>, at which no visitor wants to continue,
  so \<open>ex_mid\<close> is never visited.  The walk has recorded \<open>ex_mid\<close> as a child of
  \<open>ex_fork\<close>, so \<open>ex_fork\<close>, reached from \<open>ex_side\<close>, is put back onto
  \<open>branch_heads\<close> in every round: no amount of fuel lets the first pass return.
\<close>

lemma late_merge_round_1:
  "discover_branch example_visitors ex_late_merge (commit_children (walk ex_late_merge))
     ex_late_merge [] (initial_state ex_late_merge\<lparr>branch_heads := []\<rparr>) = Inr ex_state_1"
  by code_simp

lemma late_merge_round_2:
  "discover_branch example_visitors ex_late_merge (commit_children (walk ex_late_merge))
     ex_side [] (ex_state_1\<lparr>branch_heads := []\<rparr>) = Inr ex_state_2"
  by code_simp

lemma late_merge_round_3:
  "discover_branch example_visitors ex_late_merge (commit_children (walk ex_late_merge))
     ex_fork [] (ex_state_2\<lparr>branch_heads := []\<rparr>) = Inr ex_state_2"
  by code_simp

lemma late_merge_stuck:
  "discover fuel example_visitors ex_late_merge (commit_children (walk ex_late_merge)) ex_state_2
     = None"
proof (induction fuel)
  case 0
  show ?case by simp
next
  case (Suc fuel)
  have "branch_heads ex_state_2 = [ex_fork]"
    by (simp add: ex_state_2_def)
  with Suc late_merge_round_3 show ?case
    by simp
qed

lemma first_pass_never_ends:
  "run_passes fuel example_visitors ex_late_merge = None"
proof -
  let ?d = "\<lambda>fuel. discover fuel example_visitors ex_late_merge
      (commit_children (walk ex_late_merge))"
  have h0: "branch_heads (initial_state ex_late_merge) = [ex_late_merge]"
    by (simp add: initial_state_def)
  have h1: "branch_heads ex_state_1 = [ex_side]"
    by (simp add: ex_state_1_def)
  have "?d fuel (initial_state ex_late_merge) = None"
  proof (cases fuel)
    case 0
    then show ?thesis by simp
  next
    case (Suc n)
    with h0 late_merge_round_1 have 1: "?d fuel (initial_state ex_late_merge) = ?d n ex_state_1"
      by simp
    show ?thesis
    proof (cases n)
      case 0
      with 1 show ?thesis by simp
    next
      case (Suc m)
      with h1 late_merge_round_2 have "?d n ex_state_1 = ?d m ex_state_2"
        by simp
      with 1 late_merge_stuck show ?thesis by simp
    qed
  qed
  then show ?thesis
    by (simp add: run_passes_def)
qed

text \<open>
  C9: on the head \<open>ex_late_merge\<close> a run with the built-in visitors produces no
  result mapping at all, with all results or with the result of the head only: whatever
  the amount of fuel, the run has not returned when the fuel is used up.
\<close>

theorem run_never_returns:
  "run fuel example_visitors ex_late_merge all_results = None"
  by (simp add: run_def run_on_history_def first_pass_never_ends)

end
